theory Spec2Isabelle
  imports Main "HOL-Library.Multiset"
begin

section \<open>Data model of solve.py\<close>

text \<open>
  Python objects that are shared by reference (the \<^verbatim>\<open>Edge\<close> objects held in
  \<^verbatim>\<open>Board.edges\<close>) are addressed by their index in that list: the list is
  filled once by the constructor and never reordered, so the index is the object's
  identity.  A Python \<^verbatim>\<open>set\<close> is a duplicate-free list in insertion order.
  Every exception the source can raise is a value of \<open>error\<close>.
\<close>

datatype error = AssertionError | IndexError | KeyError | AttributeError

datatype Shape = Flat | Knob | Socket

datatype Rotation = R0 | R90 | R180 | R270

datatype Direction = Up | Right | Down | Left

type_synonym Position = "int \<times> int"

record Edge =
  group :: "nat option"
  shape :: Shape
  connection :: "nat option"
  merges :: "nat list"

record Piece =
  piece_id :: nat
  piece_edges :: nat
  rotation :: Rotation

record Board =
  width :: int
  height :: int
  pieces :: "Piece list"
  edges :: "Edge list"

definition EDGE_COUNT :: nat where
  "EDGE_COUNT = 4"

fun rotation_value :: "Rotation \<Rightarrow> nat" where
  "rotation_value R0 = 0"
| "rotation_value R90 = 1"
| "rotation_value R180 = 2"
| "rotation_value R270 = 3"

fun direction_value :: "Direction \<Rightarrow> nat" where
  "direction_value Up = 0"
| "direction_value Right = 1"
| "direction_value Down = 2"
| "direction_value Left = 3"

text \<open>Iterating over the enum \<^verbatim>\<open>Direction\<close> / \<^verbatim>\<open>Rotation\<close> follows definition order.\<close>

definition directions :: "Direction list" where
  "directions = [Up, Right, Down, Left]"

definition rotations :: "Rotation list" where
  "rotations = [R0, R90, R180, R270]"

fun delta :: "Direction \<Rightarrow> int \<times> int" where
  "delta Up = (-1, 0)"
| "delta Down = (1, 0)"
| "delta Right = (0, 1)"
| "delta Left = (0, -1)"

fun inverse_dir :: "Direction \<Rightarrow> Direction" where
  "inverse_dir Up = Down"
| "inverse_dir Down = Up"
| "inverse_dir Right = Left"
| "inverse_dir Left = Right"

definition default_edge :: Edge where
  "default_edge = \<lparr>group = None, shape = Flat, connection = None, merges = []\<rparr>"

subsection \<open>Python list indexing\<close>

text \<open>
  \<^verbatim>\<open>xs[i]\<close> for an \<^verbatim>\<open>int\<close> \<open>i\<close>: a negative index counts from the end, an
  index outside \<open>-len \<dots> len-1\<close> raises \<^verbatim>\<open>IndexError\<close>.
\<close>

definition py_index :: "nat \<Rightarrow> int \<Rightarrow> nat option" where
  "py_index n i =
     (if 0 \<le> i \<and> i < int n then Some (nat i)
      else if i < 0 \<and> - int n \<le> i then Some (nat (int n + i))
      else None)"

definition py_get :: "'a list \<Rightarrow> int \<Rightarrow> error + 'a" where
  "py_get xs i = (case py_index (length xs) i of None \<Rightarrow> Inl IndexError | Some k \<Rightarrow> Inr (xs ! k))"

definition py_set :: "'a list \<Rightarrow> int \<Rightarrow> 'a \<Rightarrow> error + 'a list" where
  "py_set xs i v = (case py_index (length xs) i of None \<Rightarrow> Inl IndexError | Some k \<Rightarrow> Inr (xs[k := v]))"

text \<open>Sequencing of computations that may raise.\<close>

definition ebind :: "error + 'a \<Rightarrow> ('a \<Rightarrow> error + 'b) \<Rightarrow> error + 'b" where
  "ebind m f = (case m of Inl e \<Rightarrow> Inl e | Inr x \<Rightarrow> f x)"

subsection \<open>Board construction (\<^verbatim>\<open>Board.__post_init__\<close>)\<close>

definition initial_rotation :: "int \<Rightarrow> int \<Rightarrow> int \<Rightarrow> int \<Rightarrow> Rotation" where
  "initial_rotation w h i j =
     (if i = 0 then R270
      else if j = w - 1 then R180
      else if i = h - 1 then R90
      else R0)"

text \<open>\<^verbatim>\<open>range(n)\<close> for an \<^verbatim>\<open>int\<close> \<open>n\<close>, and \<^verbatim>\<open>range(a, b)\<close>.\<close>

definition py_range :: "int \<Rightarrow> int list" where
  "py_range n = map int [0..<nat n]"

definition py_range2 :: "int \<Rightarrow> int \<Rightarrow> int list" where
  "py_range2 a b = map (\<lambda>k. a + int k) [0..<nat (b - a)]"

definition grid_positions :: "int \<Rightarrow> int \<Rightarrow> Position list" where
  "grid_positions w h = concat (map (\<lambda>i. map (\<lambda>j. (i, j)) (py_range w)) (py_range h))"

definition add_piece :: "Position \<Rightarrow> Board \<Rightarrow> Board" where
  "add_piece p b =
     (let rot = initial_rotation (width b) (height b) (fst p) (snd p);
          piece_index = length (pieces b);
          piece_edges = length (edges b)
      in b\<lparr>edges := edges b @ replicate EDGE_COUNT default_edge,
           pieces := pieces b @ [\<lparr>piece_id = piece_index, piece_edges = piece_edges, rotation = rot\<rparr>]\<rparr>)"

definition new_board :: "int \<Rightarrow> int \<Rightarrow> error + Board" where
  "new_board w h =
     (if \<not> w > 1 then Inl AssertionError
      else if \<not> h > 1 then Inl AssertionError
      else Inr (fold add_piece (grid_positions w h)
                  \<lparr>width = w, height = h, pieces = [], edges = []\<rparr>))"

subsection \<open>Addressing\<close>

definition in_bounds :: "Board \<Rightarrow> Position \<Rightarrow> bool" where
  "in_bounds b index =
     (0 \<le> fst index \<and> fst index < height b \<and> 0 \<le> snd index \<and> snd index < width b)"

definition is_adjacent :: "Position \<Rightarrow> Position \<Rightarrow> bool" where
  "is_adjacent from_index to_index =
     (\<bar>fst from_index - fst to_index\<bar> + \<bar>snd from_index - snd to_index\<bar> = 1)"

definition get_piece_index :: "Board \<Rightarrow> Position \<Rightarrow> int" where
  "get_piece_index b index = fst index * width b + snd index"

definition get_edge_index :: "Board \<Rightarrow> Position \<Rightarrow> Direction \<Rightarrow> error + nat" where
  "get_edge_index b index direction =
     ebind (py_get (pieces b) (get_piece_index b index)) (\<lambda>piece.
       let offset = (rotation_value (rotation piece) + direction_value direction) mod EDGE_COUNT
       in Inr (piece_edges piece + offset))"

subsection \<open>Connecting edges\<close>

definition connect_edges :: "Board \<Rightarrow> nat \<Rightarrow> nat \<Rightarrow> error + (bool \<times> Board)" where
  "connect_edges b from_edge_index to_edge_index =
     (if from_edge_index = to_edge_index then Inr (False, b)
      else
        ebind (py_get (edges b) (int from_edge_index)) (\<lambda>from_edge.
        ebind (py_get (edges b) (int to_edge_index)) (\<lambda>to_edge.
          Inr (True,
               b\<lparr>edges := (edges b)
                   [from_edge_index := from_edge\<lparr>connection := Some to_edge_index\<rparr>,
                    to_edge_index := to_edge\<lparr>connection := Some from_edge_index\<rparr>]\<rparr>))))"

definition connect_pieces :: "Board \<Rightarrow> Position \<Rightarrow> Position \<Rightarrow> error + (bool \<times> Board)" where
  "connect_pieces b from_index to_index =
     (if \<not> is_adjacent from_index to_index then Inl AssertionError
      else
        ebind
          (if fst from_index < fst to_index then Inr (Down, Up)
           else if fst from_index > fst to_index then Inr (Up, Down)
           else if snd from_index < snd to_index then Inr (Right, Left)
           else if snd from_index > snd to_index then Inr (Left, Right)
           else Inl AssertionError) (\<lambda>dirs.
        ebind (get_edge_index b from_index (fst dirs)) (\<lambda>from_edge_index.
        ebind (get_edge_index b to_index (snd dirs)) (\<lambda>to_edge_index.
          connect_edges b from_edge_index to_edge_index))))"

text \<open>
  The three nested loops of \<^verbatim>\<open>connect_adjacent_edges\<close> and \<^verbatim>\<open>merge_edges\<close> visit
  the (position, direction) pairs in this order.
\<close>

definition slot_visits :: "int \<Rightarrow> int \<Rightarrow> (Position \<times> Direction) list" where
  "slot_visits w h = concat (map (\<lambda>p. map (\<lambda>d. (p, d)) directions) (grid_positions w h))"

definition neighbour :: "Position \<Rightarrow> Direction \<Rightarrow> Position" where
  "neighbour p d = (fst p + fst (delta d), snd p + snd (delta d))"

fun connect_loop :: "(Position \<times> Direction) list \<Rightarrow> Board \<Rightarrow> error + (bool \<times> Board)" where
  "connect_loop [] b = Inr (True, b)"
| "connect_loop ((from_index, direction) # rest) b =
     (let to_index = neighbour from_index direction
      in if \<not> in_bounds b to_index then connect_loop rest b
         else
           ebind (connect_pieces b from_index to_index) (\<lambda>r.
             if \<not> fst r then Inr (False, snd r) else connect_loop rest (snd r)))"

definition connect_adjacent_edges :: "Board \<Rightarrow> error + (bool \<times> Board)" where
  "connect_adjacent_edges b = connect_loop (slot_visits (width b) (height b)) b"

subsection \<open>Swapping pieces\<close>

definition swap_pieces :: "Board \<Rightarrow> Position \<Rightarrow> Position \<Rightarrow> error + Board" where
  "swap_pieces b from_index to_index =
     (let fpi = get_piece_index b from_index;
          tpi = get_piece_index b to_index
      in ebind (py_get (pieces b) tpi) (\<lambda>tp.
         ebind (py_get (pieces b) fpi) (\<lambda>fp.
         ebind (py_set (pieces b) fpi tp) (\<lambda>ps1.
         ebind (py_set ps1 tpi fp) (\<lambda>ps2.
           Inr (b\<lparr>pieces := ps2\<rparr>))))))"

text \<open>
  The generator expression summed in \<^verbatim>\<open>swap\<close>: the number of directions whose edge
  slot at \<open>index\<close> has no connection.
\<close>

fun none_flags :: "Board \<Rightarrow> Position \<Rightarrow> Direction list \<Rightarrow> error + nat" where
  "none_flags b index [] = Inr 0"
| "none_flags b index (direction # ds) =
     ebind (get_edge_index b index direction) (\<lambda>ei.
     ebind (py_get (edges b) (int ei)) (\<lambda>e.
     ebind (none_flags b index ds) (\<lambda>n.
       Inr ((if connection e = None then 1 else 0) + n))))"

definition none_count :: "Board \<Rightarrow> Position \<Rightarrow> error + nat" where
  "none_count b index = none_flags b index directions"

definition swap :: "Board \<Rightarrow> Position \<Rightarrow> Position \<Rightarrow> error + (bool \<times> Board)" where
  "swap b from_index to_index =
     ebind (none_count b from_index) (\<lambda>from_count.
     ebind (none_count b to_index) (\<lambda>to_count.
       if from_count \<noteq> to_count then Inr (False, b)
       else
         ebind
           (if from_count > 0 then
              ebind (py_get (pieces b) (get_piece_index b from_index)) (\<lambda>from_piece.
              ebind (py_get (pieces b) (get_piece_index b to_index)) (\<lambda>to_piece.
              ebind (py_set (pieces b) (get_piece_index b from_index)
                       (from_piece\<lparr>rotation := rotation to_piece\<rparr>)) (\<lambda>ps1.
              ebind (py_get ps1 (get_piece_index b to_index)) (\<lambda>to_piece'.
              ebind (py_set ps1 (get_piece_index b to_index)
                       (to_piece'\<lparr>rotation := rotation from_piece\<rparr>)) (\<lambda>ps2.
                Inr (b\<lparr>pieces := ps2\<rparr>))))))
            else Inr b) (\<lambda>b1.
         ebind (swap_pieces b1 from_index to_index) (\<lambda>b2.
           Inr (True, b2)))))"

subsection \<open>Shuffle\<close>

text \<open>
  The candidate list of the border phase, as the two loop nests of \<^verbatim>\<open>shuffle\<close>
  build it (the local variable \<^verbatim>\<open>edges\<close> before \<^verbatim>\<open>random.shuffle\<close>).
\<close>

definition border_candidates :: "Board \<Rightarrow> Position list" where
  "border_candidates b =
     concat (map (\<lambda>i. concat (map (\<lambda>j. if i = j then [] else [(i, j)])
                                  (py_range2 1 (width b - 1))))
                 [0, height b - 1])
     @ concat (map (\<lambda>j. concat (map (\<lambda>i. if i = j then [] else [(i, j)])
                                    (py_range2 1 (height b - 1))))
                   [0, width b - 1])"

definition center_candidates :: "Board \<Rightarrow> Position list" where
  "center_candidates b =
     concat (map (\<lambda>i. map (\<lambda>j. (i, j)) (py_range2 1 (width b - 1)))
                 (py_range2 1 (height b - 1)))"

text \<open>
  The module \<^verbatim>\<open>random\<close> is not part of the repository.  Its results are parameters:
  \<open>sh\<close> is what \<^verbatim>\<open>random.shuffle\<close> makes of a list (some rearrangement of it,
  \<open>is_shuffle\<close>), \<open>choice k\<close> is what \<^verbatim>\<open>random.choice\<close> returns after the
  \<open>k\<close>-th interior triple.
\<close>

definition is_shuffle :: "(Position list \<Rightarrow> Position list) \<Rightarrow> bool" where
  "is_shuffle sh = (\<forall>xs. mset (sh xs) = mset xs)"

definition asserted_swap :: "Board \<Rightarrow> Position \<Rightarrow> Position \<Rightarrow> error + Board" where
  "asserted_swap b x y =
     ebind (swap b x y) (\<lambda>r. if fst r then Inr (snd r) else Inl AssertionError)"

fun border_triples :: "Position list \<Rightarrow> Board \<Rightarrow> error + Board" where
  "border_triples (e0 # e1 # e2 # rest) b =
     ebind (asserted_swap b e0 e1) (\<lambda>b1.
     ebind (asserted_swap b1 e0 e2) (\<lambda>b2.
       border_triples rest b2))"
| "border_triples e b = Inr b"

definition set_rotation :: "Board \<Rightarrow> Position \<Rightarrow> Rotation \<Rightarrow> error + Board" where
  "set_rotation b index r =
     ebind (py_get (pieces b) (get_piece_index b index)) (\<lambda>piece.
     ebind (py_set (pieces b) (get_piece_index b index) (piece\<lparr>rotation := r\<rparr>)) (\<lambda>ps.
       Inr (b\<lparr>pieces := ps\<rparr>)))"

fun center_triples :: "(nat \<Rightarrow> Rotation) \<Rightarrow> nat \<Rightarrow> Position list \<Rightarrow> Board \<Rightarrow> error + Board" where
  "center_triples choice k (c0 # c1 # c2 # rest) b =
     ebind (asserted_swap b c0 c1) (\<lambda>b1.
     ebind (asserted_swap b1 c0 c2) (\<lambda>b2.
     ebind (set_rotation b2 c0 (choice k)) (\<lambda>b3.
       center_triples choice (Suc k) rest b3)))"
| "center_triples choice k c b = Inr b"

definition shuffle ::
  "(Position list \<Rightarrow> Position list) \<Rightarrow> (Position list \<Rightarrow> Position list) \<Rightarrow> (nat \<Rightarrow> Rotation)
     \<Rightarrow> Board \<Rightarrow> error + Board" where
  "shuffle sh_edges sh_centers choice b =
     ebind (border_triples (sh_edges (border_candidates b)) b) (\<lambda>b1.
       center_triples choice 0 (sh_centers (center_candidates b1)) b1)"

subsection \<open>Merge builder\<close>

definition set_add :: "'a list \<Rightarrow> 'a \<Rightarrow> 'a list" where
  "set_add xs x = (if x \<in> set xs then xs else xs @ [x])"

definition add_merge :: "Edge list \<Rightarrow> nat \<Rightarrow> nat \<Rightarrow> Edge list" where
  "add_merge es i x =
     (if i < length es then es[i := (es ! i)\<lparr>merges := set_add (merges (es ! i)) x\<rparr>] else es)"

fun merge_loop :: "(Position \<times> Direction) list \<Rightarrow> Board \<Rightarrow> error + Board" where
  "merge_loop [] b = Inr b"
| "merge_loop ((from_index, direction) # rest) b =
     (let to_index = neighbour from_index direction
      in if \<not> in_bounds b to_index then merge_loop rest b
         else
           ebind (get_edge_index b from_index direction) (\<lambda>from_edge_index.
           ebind (py_get (edges b) (int from_edge_index)) (\<lambda>from_edge.
           ebind (get_edge_index b to_index (inverse_dir direction)) (\<lambda>adjacent_edge_index.
           ebind (py_get (edges b) (int adjacent_edge_index)) (\<lambda>adjacent_edge.
             case connection adjacent_edge of
               None \<Rightarrow> Inl AttributeError
             | Some to_edge \<Rightarrow>
                 merge_loop rest
                   (b\<lparr>edges := add_merge (add_merge (edges b) from_edge_index to_edge)
                                   to_edge from_edge_index\<rparr>))))))"

definition merge_edges :: "Board \<Rightarrow> error + Board" where
  "merge_edges b = merge_loop (slot_visits (width b) (height b)) b"

subsection \<open>Group collapse\<close>

text \<open>
  A work list (\<^verbatim>\<open>queue\<close>) is kept with its top, the element \<^verbatim>\<open>queue.pop()\<close>
  takes, at the head: \<^verbatim>\<open>queue += xs\<close> puts the last element of \<open>xs\<close> on top.
\<close>

definition merges_of :: "Edge list \<Rightarrow> nat \<Rightarrow> nat list" where
  "merges_of es e = (if e < length es then merges (es ! e) else [])"

definition all_merges :: "Edge list \<Rightarrow> nat set" where
  "all_merges es = (\<Union>e \<in> set es. set (merges e))"

lemma merges_of_sub: "set (merges_of es e) \<subseteq> all_merges es"
proof (cases "e < length es")
  case True
  then have "es ! e \<in> set es" by simp
  then have "set (merges (es ! e)) \<subseteq> all_merges es" unfolding all_merges_def by blast
  with True show ?thesis by (simp add: merges_of_def)
next
  case False
  then show ?thesis by (simp add: merges_of_def)
qed

text \<open>The inner \<^verbatim>\<open>while queue\<close> loop of step 1: the edges reachable through \<^verbatim>\<open>merges\<close>.\<close>

function group_walk :: "Edge list \<Rightarrow> nat list \<Rightarrow> nat list \<Rightarrow> nat list" where
  "group_walk es [] grp = grp"
| "group_walk es (next_edge # queue) grp =
     (if next_edge \<in> set grp then group_walk es queue grp
      else group_walk es (rev (merges_of es next_edge) @ queue) (set_add grp next_edge))"
  by pat_completeness auto
termination
proof (relation "measures [\<lambda>(es, q, g). card ((set q \<union> all_merges es) - set g),
                           \<lambda>(es, q, g). length q]", goal_cases)
  case 1
  show ?case by simp
next
  case (2 es x q g)
  have "(set q \<union> all_merges es) - set g \<subseteq> (set (x # q) \<union> all_merges es) - set g"
    by auto
  moreover have "finite ((set (x # q) \<union> all_merges es) - set g)"
    by (simp add: all_merges_def)
  ultimately have "card ((set q \<union> all_merges es) - set g)
      \<le> card ((set (x # q) \<union> all_merges es) - set g)"
    by (rule card_mono[rotated])
  then show ?case by auto
next
  case (3 es x q g)
  have "(set (rev (merges_of es x) @ q) \<union> all_merges es) - set (set_add g x)
      \<subset> (set (x # q) \<union> all_merges es) - set g"
    using 3 merges_of_sub[of es x] by (auto simp: set_add_def)
  moreover have "finite ((set (x # q) \<union> all_merges es) - set g)"
    by (simp add: all_merges_def)
  ultimately have "card ((set (rev (merges_of es x) @ q) \<union> all_merges es) - set (set_add g x))
      < card ((set (x # q) \<union> all_merges es) - set g)"
    by (rule psubset_card_mono[rotated])
  then show ?case by auto
qed

text \<open>
  Step 1, the loop over \<^verbatim>\<open>self.edges\<close>.  \<^verbatim>\<open>groups\<close> is a dict whose keys are
  \<open>0 \<dots> len - 1\<close> (each new key is \<^verbatim>\<open>len(groups)\<close>), kept as the list of its values.
\<close>

fun group_loop ::
  "Edge list \<Rightarrow> nat list \<Rightarrow> (nat \<rightharpoonup> nat) \<times> nat list list \<Rightarrow> (nat \<rightharpoonup> nat) \<times> nat list list" where
  "group_loop es [] st = st"
| "group_loop es (edge # rest) (edge_group_map, groups) =
     (if connection (es ! edge) = None then group_loop es rest (edge_group_map, groups)
      else if edge \<in> dom edge_group_map then group_loop es rest (edge_group_map, groups)
      else
        (let grp = group_walk es [edge] [];
             group_id = length groups
         in group_loop es rest
              (fold (\<lambda>next_edge m. m(next_edge \<mapsto> group_id)) grp edge_group_map,
               groups @ [grp])))"

text \<open>A dict of sets in key insertion order; \<open>dict_add d k v\<close> is \<^verbatim>\<open>d[k].add(v)\<close> on a
  \<^verbatim>\<open>defaultdict(set)\<close>.\<close>

definition dict_add :: "(nat \<times> nat list) list \<Rightarrow> nat \<Rightarrow> nat \<Rightarrow> (nat \<times> nat list) list" where
  "dict_add d k v =
     (case map_of d k of
        None \<Rightarrow> d @ [(k, [v])]
      | Some vs \<Rightarrow> map (\<lambda>kv. if fst kv = k then (k, set_add (snd kv) v) else kv) d)"

fun connection_loop ::
  "Edge list \<Rightarrow> (nat \<rightharpoonup> nat) \<Rightarrow> nat list \<Rightarrow> (nat \<times> nat list) list
     \<Rightarrow> error + (nat \<times> nat list) list" where
  "connection_loop es edge_group_map [] group_connections = Inr group_connections"
| "connection_loop es edge_group_map (edge # rest) group_connections =
     (case connection (es ! edge) of
        None \<Rightarrow> connection_loop es edge_group_map rest group_connections
      | Some c \<Rightarrow>
          (case edge_group_map edge of
             None \<Rightarrow> Inl KeyError
           | Some g \<Rightarrow>
               (case edge_group_map c of
                  None \<Rightarrow> Inl KeyError
                | Some gc \<Rightarrow>
                    connection_loop es edge_group_map rest (dict_add group_connections g gc))))"

definition all_targets :: "(nat \<times> nat list) list \<Rightarrow> nat set" where
  "all_targets d = (\<Union>kv \<in> set d. set (snd kv))"

text \<open>The inner \<^verbatim>\<open>while queue\<close> loop of step 2: the depth layers of one component.\<close>

function layer_walk ::
  "(nat \<times> nat list) list \<Rightarrow> (nat \<rightharpoonup> nat) \<Rightarrow> (nat \<times> nat) list \<Rightarrow> nat list
     \<Rightarrow> (nat \<times> nat list) list \<Rightarrow> error + (nat \<times> nat list) list" where
  "layer_walk group_connections group_group_map [] seen layers = Inr layers"
| "layer_walk group_connections group_group_map ((group_id, depth) # queue) seen layers =
     (if group_id \<in> dom group_group_map then
        layer_walk group_connections group_group_map queue seen layers
      else if group_id \<in> set seen then
        layer_walk group_connections group_group_map queue seen layers
      else
        (case map_of group_connections group_id of
           None \<Rightarrow> Inl KeyError
         | Some cs \<Rightarrow>
             layer_walk group_connections group_group_map
               (rev (map (\<lambda>c. (c, depth + 1)) cs) @ queue)
               (set_add seen group_id)
               (dict_add layers depth group_id)))"
  by pat_completeness auto
termination
proof (relation "measures [\<lambda>(gc, m, q, s, l). card ((fst ` set q \<union> all_targets gc) - set s),
                           \<lambda>(gc, m, q, s, l). length q]", goal_cases)
  case 1
  show ?case by simp
next
  case (2 gc m g d q s l)
  have "(fst ` set q \<union> all_targets gc) - set s
      \<subseteq> (fst ` set ((g, d) # q) \<union> all_targets gc) - set s"
    by auto
  moreover have "finite ((fst ` set ((g, d) # q) \<union> all_targets gc) - set s)"
    by (simp add: all_targets_def)
  ultimately have "card ((fst ` set q \<union> all_targets gc) - set s)
      \<le> card ((fst ` set ((g, d) # q) \<union> all_targets gc) - set s)"
    by (rule card_mono[rotated])
  then show ?case by auto
next
  case (3 gc m g d q s l)
  have "(fst ` set q \<union> all_targets gc) - set s
      \<subseteq> (fst ` set ((g, d) # q) \<union> all_targets gc) - set s"
    by auto
  moreover have "finite ((fst ` set ((g, d) # q) \<union> all_targets gc) - set s)"
    by (simp add: all_targets_def)
  ultimately have "card ((fst ` set q \<union> all_targets gc) - set s)
      \<le> card ((fst ` set ((g, d) # q) \<union> all_targets gc) - set s)"
    by (rule card_mono[rotated])
  then show ?case by auto
next
  case (4 gc m g d q s l cs)
  from 4(3) have "set cs \<subseteq> all_targets gc"
    by (auto simp: all_targets_def dest!: map_of_SomeD intro!: bexI[of _ "(g, cs)"])
  then have "(fst ` set (rev (map (\<lambda>c. (c, d + 1)) cs) @ q) \<union> all_targets gc) - set (set_add s g)
      \<subset> (fst ` set ((g, d) # q) \<union> all_targets gc) - set s"
    using 4(2) by (auto simp: set_add_def)
  moreover have "finite ((fst ` set ((g, d) # q) \<union> all_targets gc) - set s)"
    by (simp add: all_targets_def)
  ultimately have
    "card ((fst ` set (rev (map (\<lambda>c. (c, d + 1)) cs) @ q) \<union> all_targets gc) - set (set_add s g))
      < card ((fst ` set ((g, d) # q) \<union> all_targets gc) - set s)"
    by (rule psubset_card_mono[rotated])
  then show ?case by auto
qed

definition set_union :: "'a list \<Rightarrow> 'a list \<Rightarrow> 'a list" where
  "set_union xs ys = fold (\<lambda>y acc. set_add acc y) ys xs"

definition set_inter :: "'a list \<Rightarrow> 'a list \<Rightarrow> 'a list" where
  "set_inter xs ys = filter (\<lambda>x. x \<in> set ys) xs"

fun split_layers :: "(nat \<times> nat list) list \<Rightarrow> nat list \<times> nat list \<Rightarrow> nat list \<times> nat list" where
  "split_layers [] (evens, odds) = (evens, odds)"
| "split_layers ((depth, group_id) # rest) (evens, odds) =
     (if depth mod 2 = 0 then split_layers rest (set_union evens group_id, odds)
      else split_layers rest (evens, set_union odds group_id))"

text \<open>
  The state of the component loop: \<^verbatim>\<open>group_group_map\<close>, \<^verbatim>\<open>group_groups\<close> and
  \<^verbatim>\<open>group_group_shape\<close> (both dicts keyed \<open>0 \<dots> len - 1\<close>, kept as lists).
\<close>

type_synonym collapse_state = "(nat \<rightharpoonup> nat) \<times> nat list list \<times> Shape list"

fun assign_group_group :: "nat list \<times> Shape \<Rightarrow> collapse_state \<Rightarrow> collapse_state" where
  "assign_group_group (group_group, shp) (group_group_map, group_groups, group_group_shape) =
     (let gg_id = length group_groups
      in (fold (\<lambda>group_id m. m(group_id \<mapsto> gg_id)) group_group group_group_map,
          group_groups @ [group_group],
          group_group_shape @ [shp]))"

text \<open>The loop over \<^verbatim>\<open>group_connections.keys()\<close>; \<open>None\<close> is \<^verbatim>\<open>return False\<close>.\<close>

fun component_loop ::
  "(nat \<times> nat list) list \<Rightarrow> nat list \<Rightarrow> collapse_state \<Rightarrow> error + collapse_state option" where
  "component_loop group_connections [] st = Inr (Some st)"
| "component_loop group_connections (group_id # rest) (group_group_map, group_groups, group_group_shape) =
     (if group_id \<in> dom group_group_map then
        component_loop group_connections rest (group_group_map, group_groups, group_group_shape)
      else
        ebind (layer_walk group_connections group_group_map [(group_id, 0)] [] []) (\<lambda>layers.
          let eo = split_layers layers ([], [])
          in if set_inter (fst eo) (snd eo) \<noteq> [] then Inr None
             else component_loop group_connections rest
                    (fold assign_group_group [(fst eo, Knob), (snd eo, Socket)]
                       (group_group_map, group_groups, group_group_shape))))"

definition write_edge :: "nat \<Rightarrow> Shape \<Rightarrow> nat \<Rightarrow> Edge list \<Rightarrow> Edge list" where
  "write_edge g s e es = (if e < length es then es[e := (es ! e)\<lparr>group := Some g, shape := s\<rparr>] else es)"

fun write_groups :: "nat list list \<Rightarrow> nat \<Rightarrow> Shape \<Rightarrow> nat list \<Rightarrow> Edge list \<Rightarrow> error + Edge list" where
  "write_groups groups g s [] es = Inr es"
| "write_groups groups g s (g_id # rest) es =
     (if g_id < length groups then
        write_groups groups g s rest (fold (write_edge g s) (groups ! g_id) es)
      else Inl KeyError)"

fun write_loop ::
  "nat list list \<Rightarrow> Shape list \<Rightarrow> (nat \<times> nat list) list \<Rightarrow> Edge list \<Rightarrow> error + Edge list" where
  "write_loop groups group_group_shape [] es = Inr es"
| "write_loop groups group_group_shape ((gg_id, g_ids) # rest) es =
     (if gg_id < length group_group_shape then
        ebind (write_groups groups (gg_id div 2) (group_group_shape ! gg_id) g_ids es)
          (write_loop groups group_group_shape rest)
      else Inl KeyError)"

definition collapse_edges :: "Board \<Rightarrow> error + (bool \<times> Board)" where
  "collapse_edges b =
     (let es = edges b;
          st1 = group_loop es [0..<length es] (Map.empty, []);
          edge_group_map = fst st1;
          groups = snd st1
      in ebind (connection_loop es edge_group_map [0..<length es] []) (\<lambda>group_connections.
         ebind (component_loop group_connections (map fst group_connections) (Map.empty, [], []))
           (\<lambda>r. case r of
                  None \<Rightarrow> Inr (False, b)
                | Some (group_group_map, group_groups, group_group_shape) \<Rightarrow>
                    ebind (write_loop groups group_group_shape
                             (enumerate 0 group_groups) es) (\<lambda>es'.
                      Inr (True, b\<lparr>edges := es'\<rparr>)))))"

subsection \<open>Uniqueness check\<close>

definition piece_signature :: "Edge list \<Rightarrow> Piece \<Rightarrow> (nat option \<times> Shape) list" where
  "piece_signature es piece =
     map (\<lambda>edge. (group edge, shape edge)) (take EDGE_COUNT (drop (piece_edges piece) es))"

fun unique_loop :: "Edge list \<Rightarrow> Piece list \<Rightarrow> (nat option \<times> Shape) list list \<Rightarrow> bool" where
  "unique_loop es [] piece_set = True"
| "unique_loop es (piece # rest) piece_set =
     (let out_piece = piece_signature es piece
      in if out_piece \<in> set piece_set then False
         else unique_loop es rest (set_add piece_set out_piece))"

definition check_all_unique :: "Board \<Rightarrow> bool" where
  "check_all_unique b = unique_loop (edges b) (pieces b) []"

subsection \<open>Generation loop\<close>

record Random =
  sh_edges :: "Position list \<Rightarrow> Position list"
  sh_centers :: "Position list \<Rightarrow> Position list"
  choice :: "nat \<Rightarrow> Rotation"

text \<open>One pass through the body of \<^verbatim>\<open>while True\<close> in \<^verbatim>\<open>main\<close>: the board it built
  and the value of \<^verbatim>\<open>board.check_all_unique()\<close>.  The results of
  \<^verbatim>\<open>connect_adjacent_edges\<close> and \<^verbatim>\<open>collapse_edges\<close> are not read.\<close>

definition attempt :: "Random \<Rightarrow> int \<Rightarrow> int \<Rightarrow> error + (bool \<times> Board)" where
  "attempt rnd w h =
     ebind (new_board w h) (\<lambda>board.
     ebind (connect_adjacent_edges board) (\<lambda>r1.
     ebind (shuffle (sh_edges rnd) (sh_centers rnd) (choice rnd) (snd r1)) (\<lambda>b2.
     ebind (merge_edges b2) (\<lambda>b3.
     ebind (collapse_edges b3) (\<lambda>r4.
       Inr (check_all_unique (snd r4), snd r4))))))"

text \<open>The loop may run forever: not returning is \<open>None\<close>.  Attempt \<open>k\<close> draws its
  randomness from \<open>rnd k\<close>.\<close>

partial_function (option) generation_loop ::
  "(nat \<Rightarrow> Random) \<Rightarrow> int \<Rightarrow> int \<Rightarrow> nat \<Rightarrow> (error + Board) option" where
  "generation_loop rnd w h k =
     (case attempt (rnd k) w h of
        Inl e \<Rightarrow> Some (Inl e)
      | Inr r \<Rightarrow> if fst r then Some (Inr (snd r)) else generation_loop rnd w h (Suc k))"

text \<open>\<^verbatim>\<open>main\<close> returns the two boards it renders: the ``Initial'' view (the accepted
  board with the piece list of a fresh \<^verbatim>\<open>Board\<close>) and the ``Final'' view.\<close>

definition main :: "(nat \<Rightarrow> Random) \<Rightarrow> int \<Rightarrow> int \<Rightarrow> (error + (Board \<times> Board)) option" where
  "main rnd w h =
     (case generation_loop rnd w h 0 of
        None \<Rightarrow> None
      | Some (Inl e) \<Rightarrow> Some (Inl e)
      | Some (Inr board) \<Rightarrow>
          Some (ebind (new_board (width board) (height board)) (\<lambda>fresh.
                  Inr (board\<lparr>pieces := pieces fresh\<rparr>, board))))"

subsection \<open>Auxiliary notions used in the statements\<close>

text \<open>The number of unconnected edges among the four edge slots that start at \<open>base\<close>
  (what \<^verbatim>\<open>swap\<close> counts for a piece, whatever its rotation).\<close>

definition edge_count :: "Edge list \<Rightarrow> nat \<Rightarrow> error + nat" where
  "edge_count es base =
     (if base + 3 < length es
      then Inr (length (filter (\<lambda>k. connection (es ! (base + k)) = None) [0, 1, 2, 3]))
      else Inl IndexError)"

definition slot_counts :: "Board \<Rightarrow> (error + nat) list" where
  "slot_counts b = map (\<lambda>piece. edge_count (edges b) (piece_edges piece)) (pieces b)"

text \<open>The first two statements of the loop body of \<^verbatim>\<open>main\<close>: a fresh board with
  its adjacent edges connected.\<close>

definition connected_board :: "int \<Rightarrow> int \<Rightarrow> error + Board" where
  "connected_board w h =
     ebind (new_board w h) (\<lambda>board.
     ebind (connect_adjacent_edges board) (\<lambda>r. Inr (snd r)))"

text \<open>
  The uniqueness check as the specification words it: the four (group, shape) pairs of
  a piece read in the direction order Up, Right, Down, Left through the rotation-aware
  mapping of \<^verbatim>\<open>get_edge_index\<close>, and no two pieces with the same tuple.
\<close>

definition direction_signature :: "Edge list \<Rightarrow> Piece \<Rightarrow> (nat option \<times> Shape) list" where
  "direction_signature es piece =
     map (\<lambda>direction.
            let edge = es ! (piece_edges piece
                             + (rotation_value (rotation piece) + direction_value direction) mod EDGE_COUNT)
            in (group edge, shape edge))
         directions"

definition spec_all_unique :: "Board \<Rightarrow> bool" where
  "spec_all_unique b = distinct (map (direction_signature (edges b)) (pieces b))"

text \<open>A source of randomness under which \<^verbatim>\<open>random.shuffle\<close> leaves every list in
  its order and \<^verbatim>\<open>random.choice\<close> always picks \<^verbatim>\<open>R0\<close>.\<close>

definition identity_random :: Random where
  "identity_random = \<lparr>sh_edges = (\<lambda>xs. xs), sh_centers = (\<lambda>xs. xs), choice = (\<lambda>k. R0)\<rparr>"

text \<open>The groups that the layers at the depths satisfying \<open>P\<close> hold.\<close>

definition layer_members :: "(nat \<Rightarrow> bool) \<Rightarrow> (nat \<times> nat list) list \<Rightarrow> nat set" where
  "layer_members P layers = (\<Union>kv \<in> set layers. if P (fst kv) then set (snd kv) else {})"


text \<open>
  A board on which three merge groups are pairwise adjacent: the connected 2 by 2
  board with the merge sets \<open>{0, 14}\<close>, \<open>{6, 1}\<close>, \<open>{9, 5}\<close> entered by hand
  (its connections are \<open>0 \<leftrightarrow> 6\<close>, \<open>1 \<leftrightarrow> 9\<close>, \<open>5 \<leftrightarrow> 14\<close>, \<open>10 \<leftrightarrow> 13\<close>).
\<close>

definition odd_cycle_board :: Board where
  "odd_cycle_board =
     (projr (connected_board 2 2))
       \<lparr>edges := fold (\<lambda>(i, j) es. add_merge (add_merge es i j) j i) [(0, 14), (6, 1), (9, 5)]
                   (edges (projr (connected_board 2 2)))\<rparr>"


text \<open>
  The fresh board in closed form.  \<open>slot w h p d\<close> is the edge that
  \<^verbatim>\<open>get_edge_index\<close> gives for position \<open>p\<close> and direction \<open>d\<close> on the board the
  constructor builds, \<open>fresh_pieces\<close> is its piece list, \<open>seam_target\<close> the edge
  across the seam, and \<open>connect_inv\<close> what holds of the board while
  \<^verbatim>\<open>connect_adjacent_edges\<close> runs.
\<close>

definition slot :: "int \<Rightarrow> int \<Rightarrow> Position \<Rightarrow> Direction \<Rightarrow> nat" where
  "slot w h p d =
     4 * nat (fst p * w + snd p)
     + (rotation_value (initial_rotation w h (fst p) (snd p)) + direction_value d) mod 4"

definition fresh_pieces :: "int \<Rightarrow> int \<Rightarrow> Piece list" where
  "fresh_pieces w h =
     map (\<lambda>k. \<lparr>piece_id = k, piece_edges = 4 * k,
                 rotation = initial_rotation w h (int (k div nat w)) (int (k mod nat w))\<rparr>)
         [0..<nat w * nat h]"

definition inside :: "int \<Rightarrow> int \<Rightarrow> Position \<Rightarrow> bool" where
  "inside w h p = (0 \<le> fst p \<and> fst p < h \<and> 0 \<le> snd p \<and> snd p < w)"

definition seam_target :: "int \<Rightarrow> int \<Rightarrow> Position \<Rightarrow> Direction \<Rightarrow> nat option" where
  "seam_target w h p d =
     (if inside w h (neighbour p d) then Some (slot w h (neighbour p d) (inverse_dir d)) else None)"

definition connect_inv :: "int \<Rightarrow> int \<Rightarrow> Board \<Rightarrow> bool" where
  "connect_inv w h b \<longleftrightarrow>
     width b = w \<and> height b = h \<and> pieces b = fresh_pieces w h
     \<and> length (edges b) = 4 * (nat w * nat h)
     \<and> (\<forall>p d. inside w h p \<longrightarrow>
            connection (edges b ! slot w h p d) = None
            \<or> connection (edges b ! slot w h p d) = seam_target w h p d)"

text \<open>
  The offsets, among the four edge slots that start at \<open>base\<close>, of the edges without a
  connection; \<open>exchanged keep kx ky ps\<close> is the piece list after \<^verbatim>\<open>swap\<close> has
  exchanged the places \<open>kx\<close> and \<open>ky\<close> (with \<open>keep\<close> the rotations stay at their
  places); \<open>arranged\<close> is what holds of the board while \<^verbatim>\<open>shuffle\<close> runs: the pieces
  are those of the fresh board in some order, every place holds a piece with the
  unconnected offsets of the piece that was first there, and a place with an
  unconnected edge keeps its rotation.
\<close>

definition flat_offsets :: "Edge list \<Rightarrow> nat \<Rightarrow> nat list" where
  "flat_offsets es base = filter (\<lambda>k. connection (es ! (base + k)) = None) [0, 1, 2, 3]"

definition exchanged :: "bool \<Rightarrow> nat \<Rightarrow> nat \<Rightarrow> Piece list \<Rightarrow> Piece list" where
  "exchanged keep kx ky ps =
     map (\<lambda>k. let q = ps ! (if k = kx then ky else if k = ky then kx else k)
              in if keep then q\<lparr>rotation := rotation (ps ! k)\<rparr> else q)
         [0..<length ps]"

definition arranged :: "int \<Rightarrow> int \<Rightarrow> Edge list \<Rightarrow> Board \<Rightarrow> bool" where
  "arranged w h E b \<longleftrightarrow>
     width b = w \<and> height b = h \<and> edges b = E
     \<and> length E = 4 * (nat w * nat h)
     \<and> length (pieces b) = nat w * nat h
     \<and> mset (map piece_edges (pieces b)) = mset (map (\<lambda>k. 4 * k) [0..<nat w * nat h])
     \<and> (\<forall>k < nat w * nat h.
           flat_offsets E (piece_edges (pieces b ! k)) = flat_offsets E (4 * k)
           \<and> (flat_offsets E (4 * k) \<noteq> [] \<longrightarrow> rotation (pieces b ! k) = rotation (fresh_pieces w h ! k)))"



definition add_pair :: "nat \<times> nat \<Rightarrow> Edge list \<Rightarrow> Edge list" where
  "add_pair ft es = add_merge (add_merge es (fst ft) (snd ft)) (snd ft) (fst ft)"





text \<open>The loop body of \<^verbatim>\<open>main\<close> without its call of \<^verbatim>\<open>shuffle\<close>.\<close>

definition unshuffled_attempt :: "int \<Rightarrow> int \<Rightarrow> error + (bool \<times> Board)" where
  "unshuffled_attempt w h =
     ebind (connected_board w h) (\<lambda>b1.
     ebind (merge_edges b1) (\<lambda>b3.
     ebind (collapse_edges b3) (\<lambda>r4.
       Inr (check_all_unique (snd r4), snd r4))))"

section \<open>Properties\<close>

subsection \<open>Raising and list indexing\<close>

lemma ebind_Inr [simp]: "ebind (Inr x) f = f x"
  by (simp add: ebind_def)

lemma ebind_Inl [simp]: "ebind (Inl e) f = Inl e"
  by (simp add: ebind_def)

lemma ebind_eq_Inr: "ebind m f = Inr y \<longleftrightarrow> (\<exists>x. m = Inr x \<and> f x = Inr y)"
  by (cases m) simp_all

lemma py_get_nat: "py_get xs (int k) = (if k < length xs then Inr (xs ! k) else Inl IndexError)"
  by (simp add: py_get_def py_index_def)

lemma py_get_error: "py_get xs i = Inl e \<Longrightarrow> e = IndexError"
  by (auto simp: py_get_def split: option.splits)

lemma py_index_less: "py_index n i = Some k \<Longrightarrow> k < n"
  by (auto simp: py_index_def split: if_splits)

lemma py_get_index: "py_index (length xs) i = Some k \<Longrightarrow> py_get xs i = Inr (xs ! k)"
  by (simp add: py_get_def)

lemma py_set_index: "py_index (length xs) i = Some k \<Longrightarrow> py_set xs i v = Inr (xs[k := v])"
  by (simp add: py_set_def)

subsection \<open>The swap primitive\<close>

lemma none_count_piece:
  "none_count b index =
     (case py_get (pieces b) (get_piece_index b index) of
        Inl e \<Rightarrow> Inl IndexError
      | Inr piece \<Rightarrow> edge_count (edges b) (piece_edges piece))"
proof (cases "py_get (pieces b) (get_piece_index b index)")
  case (Inl e)
  then show ?thesis
    by (simp add: none_count_def directions_def get_edge_index_def py_get_error)
next
  case (Inr piece)
  then show ?thesis
    by (cases "rotation piece")
       (auto simp: none_count_def directions_def get_edge_index_def py_get_nat
                  edge_count_def EDGE_COUNT_def Let_def)
qed

lemma none_count_slot:
  "none_count b index =
     (case py_index (length (pieces b)) (get_piece_index b index) of
        None \<Rightarrow> Inl IndexError
      | Some k \<Rightarrow> slot_counts b ! k)"
  by (auto simp: none_count_piece py_get_def slot_counts_def py_index_less split: option.splits)

lemma none_count_cong:
  assumes "width b' = width b" and "slot_counts b' = slot_counts b"
  shows "none_count b' index = none_count b index"
proof -
  from assms(2) have "length (pieces b') = length (pieces b)"
    by (metis length_map slot_counts_def)
  with assms show ?thesis
    by (simp add: none_count_slot get_piece_index_def cong: option.case_cong)
qed

lemma none_count_Inr:
  assumes "none_count b index = Inr n"
  shows "\<exists>k. py_index (length (pieces b)) (get_piece_index b index) = Some k
             \<and> k < length (pieces b) \<and> slot_counts b ! k = Inr n"
  using assms by (auto simp: none_count_slot py_index_less split: option.splits)

lemma swap_pieces_at:
  assumes "py_index (length (pieces b)) (get_piece_index b x) = Some kx"
    and "py_index (length (pieces b)) (get_piece_index b y) = Some ky"
  shows "swap_pieces b x y = Inr (b\<lparr>pieces := (pieces b)[kx := pieces b ! ky, ky := pieces b ! kx]\<rparr>)"
  using assms by (simp add: swap_pieces_def Let_def py_get_index py_set_index)

text \<open>The board a swap works on after the rotations have been exchanged.\<close>

lemma swap_unfold:
  assumes nx: "none_count b x = Inr n" and ny: "none_count b y = Inr n"
  obtains b1 kx ky where
    "swap b x y = ebind (swap_pieces b1 x y) (\<lambda>b2. Inr (True, b2))"
    "py_index (length (pieces b1)) (get_piece_index b1 x) = Some kx"
    "py_index (length (pieces b1)) (get_piece_index b1 y) = Some ky"
    "kx < length (pieces b)" "ky < length (pieces b)"
    "slot_counts b ! kx = Inr n" "slot_counts b ! ky = Inr n"
    "length (pieces b1) = length (pieces b)"
    "width b1 = width b" "height b1 = height b" "edges b1 = edges b"
    "\<forall>i < length (pieces b). piece_edges (pieces b1 ! i) = piece_edges (pieces b ! i)"
proof -
  from none_count_Inr[OF nx] obtain kx where
    kx: "py_index (length (pieces b)) (get_piece_index b x) = Some kx" "kx < length (pieces b)"
      "slot_counts b ! kx = Inr n" by blast
  from none_count_Inr[OF ny] obtain ky where
    ky: "py_index (length (pieces b)) (get_piece_index b y) = Some ky" "ky < length (pieces b)"
      "slot_counts b ! ky = Inr n" by blast
  define ps where "ps = pieces b"
  define b1 where "b1 = (if n > 0 then
      b\<lparr>pieces := ps[kx := (ps ! kx)\<lparr>rotation := rotation (ps ! ky)\<rparr>,
                       ky := ((ps[kx := (ps ! kx)\<lparr>rotation := rotation (ps ! ky)\<rparr>]) ! ky)
                                \<lparr>rotation := rotation (ps ! kx)\<rparr>]\<rparr>
      else b)"
  have len1: "length (pieces b1) = length (pieces b)"
    by (simp add: b1_def ps_def)
  have w1: "width b1 = width b" "height b1 = height b" "edges b1 = edges b"
    by (simp_all add: b1_def)
  have f1: "\<forall>i < length (pieces b). piece_edges (pieces b1 ! i) = piece_edges (pieces b ! i)"
    using kx(2) ky(2) by (auto simp: b1_def ps_def nth_list_update)
  have sw: "swap b x y = ebind (swap_pieces b1 x y) (\<lambda>b2. Inr (True, b2))"
    using nx ny kx ky
    by (simp add: swap_def b1_def ps_def py_get_index py_set_index)
  have kx1: "py_index (length (pieces b1)) (get_piece_index b1 x) = Some kx"
    and ky1: "py_index (length (pieces b1)) (get_piece_index b1 y) = Some ky"
    using kx ky len1 w1 by (simp_all add: get_piece_index_def)
  show ?thesis
    using that[OF sw kx1 ky1 kx(2) ky(2) kx(3) ky(3) len1 w1 f1] .
qed

lemma swap_equal_counts:
  assumes "none_count b x = Inr n" and "none_count b y = Inr n"
  shows "\<exists>b'. swap b x y = Inr (True, b')"
proof -
  from swap_unfold[OF assms] obtain b1 kx ky where
    "swap b x y = ebind (swap_pieces b1 x y) (\<lambda>b2. Inr (True, b2))"
    "py_index (length (pieces b1)) (get_piece_index b1 x) = Some kx"
    "py_index (length (pieces b1)) (get_piece_index b1 y) = Some ky"
    by metis
  then show ?thesis
    by (simp add: swap_pieces_at)
qed

lemma swap_frame:
  assumes "swap b x y = Inr (ok, b')"
  shows "edges b' = edges b \<and> width b' = width b \<and> height b' = height b
         \<and> slot_counts b' = slot_counts b"
proof -
  from assms obtain nx ny where nx: "none_count b x = Inr nx" and ny: "none_count b y = Inr ny"
    by (auto simp: swap_def ebind_eq_Inr)
  show ?thesis
  proof (cases "nx = ny")
    case False
    with assms nx ny show ?thesis by (simp add: swap_def)
  next
    case True
    with ny have ny': "none_count b y = Inr nx" by simp
    from swap_unfold[OF nx ny'] obtain b1 kx ky where
      sw: "swap b x y = ebind (swap_pieces b1 x y) (\<lambda>b2. Inr (True, b2))"
      and kx1: "py_index (length (pieces b1)) (get_piece_index b1 x) = Some kx"
      and ky1: "py_index (length (pieces b1)) (get_piece_index b1 y) = Some ky"
      and kx: "kx < length (pieces b)" and ky: "ky < length (pieces b)"
      and fx: "slot_counts b ! kx = Inr nx" and fy: "slot_counts b ! ky = Inr nx"
      and len1: "length (pieces b1) = length (pieces b)"
      and w1: "width b1 = width b" "height b1 = height b" "edges b1 = edges b"
      and f1: "\<forall>i < length (pieces b). piece_edges (pieces b1 ! i) = piece_edges (pieces b ! i)"
      by metis
    from assms sw swap_pieces_at[OF kx1 ky1]
    have b': "b' = b1\<lparr>pieces := (pieces b1)[kx := pieces b1 ! ky, ky := pieces b1 ! kx]\<rparr>"
      by simp
    have "slot_counts b' = slot_counts b"
    proof (rule nth_equalityI)
      show "length (slot_counts b') = length (slot_counts b)"
        by (simp add: b' len1 slot_counts_def)
    next
      fix i assume "i < length (slot_counts b')"
      then have i: "i < length (pieces b)" by (simp add: b' len1 slot_counts_def)
      show "slot_counts b' ! i = slot_counts b ! i"
        using i f1 fx fy kx ky len1
        by (auto simp: b' w1 nth_list_update slot_counts_def)
    qed
    then show ?thesis
      by (simp add: b' w1)
  qed
qed

text \<open>
  C8.  When the two positions have different numbers of unconnected edge slots,
  \<^verbatim>\<open>swap\<close> returns failure and the board it leaves is the board it was given: the
  piece and the rotation at both positions are what they were.
\<close>

theorem swap_rejects_unequal_counts:
  assumes "none_count b from_index = Inr from_count"
    and "none_count b to_index = Inr to_count"
    and "from_count \<noteq> to_count"
  shows "swap b from_index to_index = Inr (False, b)"
  using assms by (simp add: swap_def)

theorem swap_rejects_unequal_counts_witness:
  "none_count (projr (connected_board 3 3)) (0, 0) = Inr 2
   \<and> none_count (projr (connected_board 3 3)) (0, 1) = Inr 1
   \<and> swap (projr (connected_board 3 3)) (0, 0) (0, 1) = Inr (False, projr (connected_board 3 3))"
proof -
  have h1: "none_count (projr (connected_board 3 3)) (0, 0) = Inr 2"
    by code_simp
  have h2: "none_count (projr (connected_board 3 3)) (0, 1) = Inr 1"
    by code_simp
  from swap_rejects_unequal_counts[OF h1 h2] h1 h2 show ?thesis
    by simp
qed

subsection \<open>Shuffle\<close>

lemma set_rotation_frame:
  assumes "set_rotation b index r = Inr b'"
  shows "edges b' = edges b \<and> width b' = width b \<and> height b' = height b
         \<and> slot_counts b' = slot_counts b"
proof -
  from assms obtain k where k: "py_index (length (pieces b)) (get_piece_index b index) = Some k"
    by (auto simp: set_rotation_def ebind_eq_Inr py_get_def split: option.splits)
  with assms have b': "b' = b\<lparr>pieces := (pieces b)[k := (pieces b ! k)\<lparr>rotation := r\<rparr>]\<rparr>"
    by (simp add: set_rotation_def py_get_index py_set_index)
  from k have kl: "k < length (pieces b)" by (rule py_index_less)
  have "slot_counts b' = slot_counts b"
  proof (rule nth_equalityI)
    show "length (slot_counts b') = length (slot_counts b)"
      by (simp add: b' slot_counts_def)
  next
    fix i assume "i < length (slot_counts b')"
    then have "i < length (pieces b)" by (simp add: b' slot_counts_def)
    then show "slot_counts b' ! i = slot_counts b ! i"
      using kl by (cases "i = k") (simp_all add: b' slot_counts_def)
  qed
  then show ?thesis by (simp add: b')
qed

lemma asserted_swap_frame:
  assumes "asserted_swap b x y = Inr b'"
  shows "edges b' = edges b \<and> width b' = width b \<and> height b' = height b
         \<and> slot_counts b' = slot_counts b"
proof -
  from assms obtain ok where "swap b x y = Inr (ok, b')"
    by (auto simp: asserted_swap_def ebind_eq_Inr split: if_splits)
  then show ?thesis by (rule swap_frame)
qed

lemma border_triples_frame:
  "border_triples ps b = Inr b' \<Longrightarrow>
     edges b' = edges b \<and> width b' = width b \<and> height b' = height b
     \<and> slot_counts b' = slot_counts b"
proof (induction ps b rule: border_triples.induct)
  case (1 e0 e1 e2 rest b)
  from "1.prems" obtain b1 b2 where
    s1: "asserted_swap b e0 e1 = Inr b1" and s2: "asserted_swap b1 e0 e2 = Inr b2"
    and r: "border_triples rest b2 = Inr b'"
    by (auto simp: ebind_eq_Inr)
  have "edges b' = edges b2 \<and> width b' = width b2 \<and> height b' = height b2
         \<and> slot_counts b' = slot_counts b2"
    using "1.IH" s1 s2 r by blast
  with asserted_swap_frame[OF s1] asserted_swap_frame[OF s2]
  show ?case by simp
qed simp_all

lemma center_triples_frame:
  "center_triples ch k ps b = Inr b' \<Longrightarrow>
     edges b' = edges b \<and> width b' = width b \<and> height b' = height b
     \<and> slot_counts b' = slot_counts b"
proof (induction ch k ps b rule: center_triples.induct)
  case (1 ch k c0 c1 c2 rest b)
  from "1.prems" obtain b1 b2 b3 where
    s1: "asserted_swap b c0 c1 = Inr b1" and s2: "asserted_swap b1 c0 c2 = Inr b2"
    and s3: "set_rotation b2 c0 (ch k) = Inr b3"
    and r: "center_triples ch (Suc k) rest b3 = Inr b'"
    by (auto simp: ebind_eq_Inr)
  have "edges b' = edges b3 \<and> width b' = width b3 \<and> height b' = height b3
         \<and> slot_counts b' = slot_counts b3"
    using "1.IH" s1 s2 s3 r by blast
  with asserted_swap_frame[OF s1] asserted_swap_frame[OF s2] set_rotation_frame[OF s3]
  show ?case by simp
qed simp_all

lemma shuffle_frame:
  assumes "shuffle she shc ch b = Inr b'"
  shows "edges b' = edges b \<and> width b' = width b \<and> height b' = height b
         \<and> slot_counts b' = slot_counts b"
proof -
  from assms obtain b1 where
    s1: "border_triples (she (border_candidates b)) b = Inr b1"
    and s2: "center_triples ch 0 (shc (center_candidates b1)) b1 = Inr b'"
    by (auto simp: shuffle_def ebind_eq_Inr)
  from border_triples_frame[OF s1] center_triples_frame[OF s2]
  show ?thesis by simp
qed

lemma is_shuffle_Nil: "is_shuffle sh \<Longrightarrow> sh [] = []"
proof -
  assume "is_shuffle sh"
  then have "mset (sh []) = mset []" unfolding is_shuffle_def by blast
  then show ?thesis by simp
qed

lemma shuffle_2x2:
  assumes "is_shuffle she" and "is_shuffle shc" and "width b = 2" and "height b = 2"
  shows "shuffle she shc ch b = Inr b"
proof -
  have "border_candidates b = []" and "center_candidates b = []"
    using assms(3,4) by (simp_all add: border_candidates_def center_candidates_def py_range2_def)
  then show ?thesis
    using is_shuffle_Nil[OF assms(1)] is_shuffle_Nil[OF assms(2)]
    by (simp add: shuffle_def)
qed

text \<open>
  C6.  A run of \<^verbatim>\<open>shuffle\<close> that returns leaves the edge list as it was (so no
  \<^verbatim>\<open>connection\<close> field changes), and at every position the number of unconnected
  edge slots that \<^verbatim>\<open>swap\<close> counts there is the same after the run as before.
\<close>

theorem shuffle_keeps_connections_and_counts:
  assumes "shuffle she shc ch b = Inr b'"
  shows "edges b' = edges b \<and> (\<forall>index. none_count b' index = none_count b index)"
proof -
  from shuffle_frame[OF assms] have e: "edges b' = edges b" and w: "width b' = width b"
    and c: "slot_counts b' = slot_counts b" by simp_all
  from none_count_cong[OF w c] e show ?thesis by blast
qed

theorem shuffle_keeps_connections_and_counts_witness:
  "(case shuffle rev rev (\<lambda>k. R90) (projr (connected_board 3 5)) of
      Inl e \<Rightarrow> False
    | Inr b' \<Rightarrow>
        b' \<noteq> projr (connected_board 3 5)
        \<and> edges b' = edges (projr (connected_board 3 5))
        \<and> (\<forall>index. none_count b' index = none_count (projr (connected_board 3 5)) index))"
proof -
  have "\<not> isl (shuffle rev rev (\<lambda>k. R90) (projr (connected_board 3 5)))"
    by code_simp
  then obtain b' where b': "shuffle rev rev (\<lambda>k. R90) (projr (connected_board 3 5)) = Inr b'"
    by (cases "shuffle rev rev (\<lambda>k. R90) (projr (connected_board 3 5))") simp_all
  have "projr (shuffle rev rev (\<lambda>k. R90) (projr (connected_board 3 5)))
          \<noteq> projr (connected_board 3 5)"
    by code_simp
  with b' have "b' \<noteq> projr (connected_board 3 5)" by simp
  with shuffle_keeps_connections_and_counts[OF b'] b' show ?thesis
    by simp
qed

text \<open>
  C4.  The border phase does not collect every border position that is not a corner:
  the test \<^verbatim>\<open>if i == j: continue\<close> drops the border position whose row and column
  are equal.  On a board of width 3 and height 2 the list is \<open>[(0, 1)]\<close>; the position
  \<open>(1, 1)\<close>, on the bottom row and not a corner, is missing.
\<close>

theorem border_candidates_misses_diagonal:
  "border_candidates (projr (new_board 3 2)) = [(0, 1)]
   \<and> in_bounds (projr (new_board 3 2)) (1, 1)
   \<and> height (projr (new_board 3 2)) - 1 = 1
   \<and> 0 < (1 :: int) \<and> 1 < width (projr (new_board 3 2)) - 1
   \<and> (1, 1) \<notin> set (border_candidates (projr (new_board 3 2)))"
  by code_simp

subsection \<open>Uniqueness check\<close>

lemma unique_loop_distinct:
  "unique_loop es ps acc
     \<longleftrightarrow> distinct (map (piece_signature es) ps) \<and> set (map (piece_signature es) ps) \<inter> set acc = {}"
  by (induction ps arbitrary: acc) (auto simp: Let_def set_add_def)

text \<open>
  C3, as the code has it.  \<^verbatim>\<open>check_all_unique\<close> returns failure exactly when two
  pieces (at different places of the piece list) have the same 4-tuple of
  (group, shape) pairs read off the four edge slots in storage order,
  \<^verbatim>\<open>edges[piece.edges : piece.edges + 4]\<close>; the rotation of a piece plays no part.
  The function only reads the board.
\<close>

theorem check_all_unique_slot_order:
  "check_all_unique b = False \<longleftrightarrow>
     (\<exists>i j. i < j \<and> j < length (pieces b)
            \<and> piece_signature (edges b) (pieces b ! i) = piece_signature (edges b) (pieces b ! j))"
proof -
  have "check_all_unique b \<longleftrightarrow> distinct (map (piece_signature (edges b)) (pieces b))"
    by (simp add: check_all_unique_def unique_loop_distinct)
  also have "\<dots> \<longleftrightarrow> \<not> (\<exists>i j. i < j \<and> j < length (pieces b)
            \<and> piece_signature (edges b) (pieces b ! i) = piece_signature (edges b) (pieces b ! j))"
    by (auto simp: distinct_conv_nth nat_neq_iff) (metis order_less_trans)+
  finally show ?thesis by blast
qed

text \<open>
  C3 as stated fails: on the 3 by 3 board that one pass of the generation loop builds
  when the shuffles leave their lists in order, \<^verbatim>\<open>check_all_unique\<close> returns failure
  although no two pieces have the same tuple in direction order.
\<close>

theorem check_all_unique_direction_order_counterexample:
  "(case attempt identity_random 3 3 of
      Inl e \<Rightarrow> False
    | Inr r \<Rightarrow> fst r = False \<and> check_all_unique (snd r) = False \<and> spec_all_unique (snd r))"
  by code_simp

subsection \<open>What the connector and the constructor leave alone\<close>

lemma connect_edges_frame:
  assumes "connect_edges b f t = Inr (ok, b')"
  shows "width b' = width b \<and> height b' = height b \<and> pieces b' = pieces b
         \<and> length (edges b') = length (edges b)"
  using assms by (auto simp: connect_edges_def ebind_eq_Inr split: if_splits)

lemma connect_pieces_frame:
  assumes "connect_pieces b x y = Inr (ok, b')"
  shows "width b' = width b \<and> height b' = height b \<and> pieces b' = pieces b
         \<and> length (edges b') = length (edges b)"
proof -
  from assms obtain f t where "connect_edges b f t = Inr (ok, b')"
    by (auto simp: connect_pieces_def ebind_eq_Inr split: if_splits)
  then show ?thesis by (rule connect_edges_frame)
qed

lemma connect_loop_frame:
  "connect_loop vs b = Inr (ok, b') \<Longrightarrow>
     width b' = width b \<and> height b' = height b \<and> pieces b' = pieces b
     \<and> length (edges b') = length (edges b)"
proof (induction vs arbitrary: b)
  case Nil
  then show ?case by simp
next
  case (Cons v vs)
  obtain x d where v: "v = (x, d)" by (cases v)
  show ?case
  proof (cases "in_bounds b (neighbour x d)")
    case False
    with Cons v show ?thesis by (simp add: Let_def)
  next
    case True
    with Cons.prems v obtain ok1 b1 where
      c: "connect_pieces b x (neighbour x d) = Inr (ok1, b1)"
      and r: "(if \<not> ok1 then Inr (False, b1) else connect_loop vs b1) = Inr (ok, b')"
      by (auto simp: Let_def ebind_eq_Inr cong: if_cong)
    from connect_pieces_frame[OF c] have f1: "width b1 = width b \<and> height b1 = height b
      \<and> pieces b1 = pieces b \<and> length (edges b1) = length (edges b)" .
    show ?thesis
    proof (cases ok1)
      case False
      with r f1 show ?thesis by simp
    next
      case True
      with r have "connect_loop vs b1 = Inr (ok, b')" by simp
      from Cons.IH[OF this] f1 show ?thesis by simp
    qed
  qed
qed

lemma fold_add_piece_dims:
  "width (fold add_piece ps b) = width b \<and> height (fold add_piece ps b) = height b"
  by (induction ps arbitrary: b) (simp_all add: add_piece_def Let_def)

lemma new_board_dims:
  assumes "new_board w h = Inr b"
  shows "width b = w \<and> height b = h"
  using assms fold_add_piece_dims[of "grid_positions w h" "\<lparr>width = w, height = h, pieces = [], edges = []\<rparr>"]
  by (auto simp: new_board_def split: if_splits)

lemma connected_board_dims:
  assumes "connected_board w h = Inr b"
  shows "width b = w \<and> height b = h"
proof -
  from assms obtain b0 ok where n: "new_board w h = Inr b0"
    and c: "connect_adjacent_edges b0 = Inr (ok, b)"
    by (auto simp: connected_board_def ebind_eq_Inr)
  from connect_loop_frame[OF c[unfolded connect_adjacent_edges_def]] new_board_dims[OF n]
  show ?thesis by simp
qed

lemma attempt_connected:
  "attempt rnd w h =
     ebind (connected_board w h) (\<lambda>b1.
     ebind (shuffle (sh_edges rnd) (sh_centers rnd) (choice rnd) b1) (\<lambda>b2.
     ebind (merge_edges b2) (\<lambda>b3.
     ebind (collapse_edges b3) (\<lambda>r4.
       Inr (check_all_unique (snd r4), snd r4)))))"
  by (cases "new_board w h"; cases "connect_adjacent_edges (projr (new_board w h))")
     (simp_all add: attempt_def connected_board_def)

subsection \<open>The fresh board and its seams\<close>

lemma concat_rows_length:
  "length (concat (map (\<lambda>i. map (f i) [0..<W]) [0..<H])) = H * W"
  by (induction H) simp_all

lemma concat_rows_nth:
  "k < H * W \<Longrightarrow> concat (map (\<lambda>i. map (f i) [0..<W]) [0..<H]) ! k = f (k div W) (k mod W)"
proof (induction H)
  case 0
  then show ?case by simp
next
  case (Suc H)
  show ?case
  proof (cases "k < H * W")
    case True
    with Suc.IH show ?thesis
      by (simp add: nth_append concat_rows_length)
  next
    case False
    define r where "r = k - H * W"
    with False Suc.prems have k: "k = r + H * W" and r: "r < W" by simp_all
    have d: "k div W = H" and m: "k mod W = r"
      using r by (simp_all add: k)
    from False r show ?thesis
      by (simp add: nth_append concat_rows_length d m r_def)
  qed
qed

lemma grid_positions_nat:
  "grid_positions w h = concat (map (\<lambda>i. map (\<lambda>j. (int i, int j)) [0..<nat w]) [0..<nat h])"
  by (simp add: grid_positions_def py_range_def o_def)

lemma grid_positions_length: "length (grid_positions w h) = nat h * nat w"
  by (simp only: grid_positions_nat concat_rows_length)

lemma grid_positions_nth:
  "k < nat h * nat w \<Longrightarrow> grid_positions w h ! k = (int (k div nat w), int (k mod nat w))"
  by (simp only: grid_positions_nat concat_rows_nth)

lemma fold_add_piece_shape:
  "fold add_piece ps \<lparr>width = w, height = h, pieces = [], edges = []\<rparr>
     = \<lparr>width = w, height = h,
        pieces = map (\<lambda>k. \<lparr>piece_id = k, piece_edges = 4 * k,
                            rotation = initial_rotation w h (fst (ps ! k)) (snd (ps ! k))\<rparr>)
                     [0..<length ps],
        edges = replicate (4 * length ps) default_edge\<rparr>"
proof (induction ps rule: rev_induct)
  case Nil
  then show ?case by simp
next
  case (snoc p ps)
  have m: "map (\<lambda>k. \<lparr>piece_id = k, piece_edges = 4 * k,
                        rotation = initial_rotation w h (fst ((ps @ [p]) ! k)) (snd ((ps @ [p]) ! k))\<rparr>)
               [0..<length ps]
         = map (\<lambda>k. \<lparr>piece_id = k, piece_edges = 4 * k,
                        rotation = initial_rotation w h (fst (ps ! k)) (snd (ps ! k))\<rparr>)
               [0..<length ps]"
    by (rule map_cong) (simp_all add: nth_append)
  have r: "replicate (4 * length ps) default_edge @ replicate 4 default_edge
         = replicate (4 * Suc (length ps)) default_edge"
    by (simp add: replicate_add[symmetric])
  have "fold add_piece (ps @ [p]) \<lparr>width = w, height = h, pieces = [], edges = []\<rparr>
      = add_piece p (fold add_piece ps \<lparr>width = w, height = h, pieces = [], edges = []\<rparr>)"
    by simp
  also have "\<dots> = add_piece p \<lparr>width = w, height = h,
        pieces = map (\<lambda>k. \<lparr>piece_id = k, piece_edges = 4 * k,
                            rotation = initial_rotation w h (fst (ps ! k)) (snd (ps ! k))\<rparr>)
                     [0..<length ps],
        edges = replicate (4 * length ps) default_edge\<rparr>"
    by (simp only: snoc.IH)
  also have "\<dots> = \<lparr>width = w, height = h,
        pieces = map (\<lambda>k. \<lparr>piece_id = k, piece_edges = 4 * k,
                            rotation = initial_rotation w h (fst (ps ! k)) (snd (ps ! k))\<rparr>)
                     [0..<length ps]
                 @ [\<lparr>piece_id = length ps, piece_edges = 4 * length ps,
                      rotation = initial_rotation w h (fst p) (snd p)\<rparr>],
        edges = replicate (4 * length ps) default_edge @ replicate 4 default_edge\<rparr>"
    by (simp add: add_piece_def Let_def EDGE_COUNT_def del: replicate_Suc replicate.simps)
  finally show ?case
    by (simp add: m r del: replicate_Suc replicate.simps)
qed

lemma new_board_fresh:
  assumes "1 < w" and "1 < h"
  shows "new_board w h = Inr \<lparr>width = w, height = h, pieces = fresh_pieces w h,
                               edges = replicate (4 * (nat w * nat h)) default_edge\<rparr>"
proof -
  have "map (\<lambda>k. \<lparr>piece_id = k, piece_edges = 4 * k,
                      rotation = initial_rotation w h (fst (grid_positions w h ! k))
                                   (snd (grid_positions w h ! k))\<rparr>)
            [0..<nat h * nat w]
      = fresh_pieces w h"
    unfolding fresh_pieces_def
    by (rule map_cong) (simp_all add: grid_positions_nth mult.commute)
  with assms show ?thesis
    by (simp add: new_board_def fold_add_piece_shape grid_positions_length mult.commute)
qed

paragraph \<open>Addressing on a fresh board\<close>

lemma in_bounds_inside: "in_bounds b p = inside (width b) (height b) p"
  by (simp add: in_bounds_def inside_def)

lemma inside_index:
  assumes "inside w h p"
  shows "nat (fst p * w + snd p) = nat (fst p) * nat w + nat (snd p)"
    and "nat (fst p * w + snd p) < nat w * nat h"
    and "0 \<le> fst p * w + snd p"
proof -
  from assms have i: "0 \<le> fst p" "fst p < h" and j: "0 \<le> snd p" "snd p < w"
    by (simp_all add: inside_def)
  then have w: "0 \<le> w" by simp
  show eq: "nat (fst p * w + snd p) = nat (fst p) * nat w + nat (snd p)"
    using i j w by (simp add: nat_add_distrib nat_mult_distrib)
  from i have "nat (fst p) < nat h" by simp
  then have "Suc (nat (fst p)) \<le> nat h" by (rule Suc_leI)
  then have "Suc (nat (fst p)) * nat w \<le> nat h * nat w" by (rule mult_le_mono1)
  then have "nat w + nat (fst p) * nat w \<le> nat h * nat w" by simp
  moreover from j have "nat (snd p) < nat w" by simp
  ultimately have "nat (fst p) * nat w + nat (snd p) < nat h * nat w" by linarith
  with eq show "nat (fst p * w + snd p) < nat w * nat h" by (simp add: mult.commute)
  show "0 \<le> fst p * w + snd p" using i j w by simp
qed

lemma inside_div_mod:
  assumes "inside w h p"
  shows "int (nat (fst p * w + snd p) div nat w) = fst p"
    and "int (nat (fst p * w + snd p) mod nat w) = snd p"
proof -
  from assms have i: "0 \<le> fst p" and j: "0 \<le> snd p" "nat (snd p) < nat w"
    by (simp_all add: inside_def)
  show "int (nat (fst p * w + snd p) div nat w) = fst p"
    using i j by (simp add: inside_index(1)[OF assms])
  show "int (nat (fst p * w + snd p) mod nat w) = snd p"
    using i j by (simp add: inside_index(1)[OF assms])
qed

lemma fresh_pieces_length: "length (fresh_pieces w h) = nat w * nat h"
  by (simp add: fresh_pieces_def)

lemma fresh_piece_at:
  assumes "inside w h p"
  shows "py_get (fresh_pieces w h) (fst p * w + snd p)
         = Inr \<lparr>piece_id = nat (fst p * w + snd p), piece_edges = 4 * nat (fst p * w + snd p),
                 rotation = initial_rotation w h (fst p) (snd p)\<rparr>"
proof -
  have k: "nat (fst p * w + snd p) < nat w * nat h" by (rule inside_index(2)[OF assms])
  have nn: "0 \<le> fst p * w + snd p" by (rule inside_index(3)[OF assms])
  with k have "fst p * w + snd p < int (nat w * nat h)" by linarith
  with nn have "py_index (nat w * nat h) (fst p * w + snd p) = Some (nat (fst p * w + snd p))"
    unfolding py_index_def by (simp only: if_True simp_thms)
  then have "py_index (length (fresh_pieces w h)) (fst p * w + snd p) = Some (nat (fst p * w + snd p))"
    by (simp only: fresh_pieces_length)
  then have "py_get (fresh_pieces w h) (fst p * w + snd p)
      = Inr (fresh_pieces w h ! nat (fst p * w + snd p))"
    by (rule py_get_index)
  also have "fresh_pieces w h ! nat (fst p * w + snd p)
      = \<lparr>piece_id = nat (fst p * w + snd p), piece_edges = 4 * nat (fst p * w + snd p),
          rotation = initial_rotation w h (fst p) (snd p)\<rparr>"
    using k by (simp add: fresh_pieces_def inside_div_mod[OF assms])
  finally show ?thesis .
qed

lemma get_edge_index_fresh:
  assumes "pieces b = fresh_pieces w h" and "width b = w" and "inside w h p"
  shows "get_edge_index b p d = Inr (slot w h p d)"
  using assms fresh_piece_at[OF assms(3)]
  by (simp add: get_edge_index_def get_piece_index_def slot_def EDGE_COUNT_def)

lemma slot_bound:
  assumes "inside w h p"
  shows "slot w h p d < 4 * (nat w * nat h)"
proof -
  have "(rotation_value (initial_rotation w h (fst p) (snd p)) + direction_value d) mod 4 < 4"
    by simp
  with inside_index(2)[OF assms] show ?thesis
    unfolding slot_def by linarith
qed

lemma offset_inj:
  "(rotation_value r + direction_value d) mod 4 = (rotation_value r + direction_value d') mod 4
     \<Longrightarrow> d = d'"
  by (cases r; cases d; cases d') simp_all

lemma offset_surj: "o' < 4 \<Longrightarrow> \<exists>d. (rotation_value r + direction_value d) mod 4 = o'"
proof -
  assume "o' < 4"
  then consider "o' = 0" | "o' = 1" | "o' = 2" | "o' = 3" by linarith
  then show ?thesis
  proof cases
    case 1
    show ?thesis
      by (cases r) (simp_all add: 1 exI[of _ Up] exI[of _ Left] exI[of _ Down] exI[of _ Right])
  next
    case 2
    show ?thesis
      by (cases r) (simp_all add: 2 exI[of _ Up] exI[of _ Left] exI[of _ Down] exI[of _ Right])
  next
    case 3
    show ?thesis
      by (cases r) (simp_all add: 3 exI[of _ Up] exI[of _ Left] exI[of _ Down] exI[of _ Right])
  next
    case 4
    show ?thesis
      by (cases r) (simp_all add: 4 exI[of _ Up] exI[of _ Left] exI[of _ Down] exI[of _ Right])
  qed
qed

lemma slot_inj:
  assumes "inside w h p" and "inside w h p'" and "slot w h p d = slot w h p' d'"
  shows "p = p' \<and> d = d'"
proof -
  define k where "k = nat (fst p * w + snd p)"
  define k' where "k' = nat (fst p' * w + snd p')"
  define o1 where "o1 = (rotation_value (initial_rotation w h (fst p) (snd p)) + direction_value d) mod 4"
  define o2 where "o2 = (rotation_value (initial_rotation w h (fst p') (snd p')) + direction_value d') mod 4"
  have "o1 < 4" "o2 < 4" by (simp_all add: o1_def o2_def)
  moreover from assms(3) have "4 * k + o1 = 4 * k' + o2"
    by (simp add: slot_def k_def k'_def o1_def o2_def)
  ultimately have kk: "k = k'" and oo: "o1 = o2" by presburger+
  have "fst p = int (k div nat w)" "snd p = int (k mod nat w)"
    unfolding k_def by (simp_all only: inside_div_mod[OF assms(1)])
  moreover have "fst p' = int (k' div nat w)" "snd p' = int (k' mod nat w)"
    unfolding k'_def by (simp_all only: inside_div_mod[OF assms(2)])
  ultimately have "fst p = fst p'" "snd p = snd p'"
    using kk by simp_all
  then have pp: "p = p'" by (simp add: prod_eq_iff)
  with oo have "d = d'" unfolding o1_def o2_def by (auto dest: offset_inj)
  with pp show ?thesis by simp
qed

lemma slot_surj:
  assumes "1 < w" and "e < 4 * (nat w * nat h)"
  shows "\<exists>p d. inside w h p \<and> slot w h p d = e"
proof -
  define k where "k = e div 4"
  define p where "p = (int (k div nat w), int (k mod nat w))"
  from assms(2) have k: "k < nat w * nat h" by (simp add: k_def)
  from assms(1) have w: "0 < nat w" by simp
  have "k div nat w < nat h"
    using k w by (simp add: less_mult_imp_div_less mult.commute)
  moreover have "k mod nat w < nat w" using w by simp
  then have "int (k mod nat w) < int (nat w)" by (simp only: of_nat_less_iff)
  then have "int (k mod nat w) < w" using assms(1) by simp
  moreover have "int (k div nat w) < h"
    using \<open>k div nat w < nat h\<close> by linarith
  ultimately have ins: "inside w h p"
    by (simp add: inside_def p_def)
  have "nat (fst p * w + snd p) = k"
    using w by (simp add: inside_index(1)[OF ins]) (simp add: p_def)
  moreover obtain d where
    "(rotation_value (initial_rotation w h (fst p) (snd p)) + direction_value d) mod 4 = e mod 4"
    using offset_surj[of "e mod 4"] by auto
  ultimately have "slot w h p d = e"
    by (simp add: slot_def k_def)
  with ins show ?thesis by blast
qed

paragraph \<open>The connector\<close>

lemma neighbour_back [simp]: "neighbour (neighbour p d) (inverse_dir d) = p"
  by (cases d) (simp_all add: neighbour_def)

lemma inverse_dir_twice [simp]: "inverse_dir (inverse_dir d) = d"
  by (cases d) simp_all

lemma neighbour_neq: "neighbour p d \<noteq> p"
  by (cases d) (auto simp: neighbour_def prod_eq_iff)

lemma connect_pieces_neighbour:
  "connect_pieces b p (neighbour p d) =
     ebind (get_edge_index b p d) (\<lambda>f.
     ebind (get_edge_index b (neighbour p d) (inverse_dir d)) (\<lambda>t.
       connect_edges b f t))"
  by (cases d) (simp_all add: connect_pieces_def is_adjacent_def neighbour_def)

lemma connect_step:
  assumes inv: "connect_inv w h b" and p: "inside w h p" and q: "inside w h (neighbour p d)"
  shows "\<exists>b'. connect_pieces b p (neighbour p d) = Inr (True, b')
              \<and> connect_inv w h b'
              \<and> connection (edges b' ! slot w h p d) \<noteq> None
              \<and> (\<forall>e. connection (edges b ! e) \<noteq> None \<longrightarrow> connection (edges b' ! e) \<noteq> None)"
proof -
  define f where "f = slot w h p d"
  define t where "t = slot w h (neighbour p d) (inverse_dir d)"
  from inv have wb: "width b = w" and hb: "height b = h" and pb: "pieces b = fresh_pieces w h"
    and len: "length (edges b) = 4 * (nat w * nat h)"
    and old': "\<forall>p d. inside w h p \<longrightarrow>
            connection (edges b ! slot w h p d) = None
            \<or> connection (edges b ! slot w h p d) = seam_target w h p d"
    unfolding connect_inv_def by simp_all
  note old = old'[rule_format]
  have fl: "f < length (edges b)" and tl: "t < length (edges b)"
    using slot_bound[OF p] slot_bound[OF q] by (simp_all add: f_def t_def len)
  have ft: "f \<noteq> t"
  proof
    assume "f = t"
    from slot_inj[OF p q this[unfolded f_def t_def]] neighbour_neq[of p d] show False by simp
  qed
  define b' where "b' = b\<lparr>edges := (edges b)[f := (edges b ! f)\<lparr>connection := Some t\<rparr>,
                                         t := (edges b ! t)\<lparr>connection := Some f\<rparr>]\<rparr>"
  have cp: "connect_pieces b p (neighbour p d) = Inr (True, b')"
    using ft fl tl
    by (simp add: connect_pieces_neighbour get_edge_index_fresh[OF pb wb p]
          get_edge_index_fresh[OF pb wb q] connect_edges_def py_get_nat b'_def
          f_def[symmetric] t_def[symmetric])
  have conn: "\<And>e. connection (edges b' ! e)
      = (if e = t then Some f else if e = f then Some t else connection (edges b ! e))"
    using fl tl ft by (simp add: b'_def nth_list_update)
  have tf: "seam_target w h p d = Some t"
    using q by (simp add: seam_target_def t_def)
  have tt: "seam_target w h (neighbour p d) (inverse_dir d) = Some f"
    using p by (simp add: seam_target_def f_def)
  have new: "\<forall>p' d'. inside w h p' \<longrightarrow>
            connection (edges b' ! slot w h p' d') = None
            \<or> connection (edges b' ! slot w h p' d') = seam_target w h p' d'"
  proof (intro allI impI)
    fix p' d' assume p': "inside w h p'"
    show "connection (edges b' ! slot w h p' d') = None
            \<or> connection (edges b' ! slot w h p' d') = seam_target w h p' d'"
    proof (cases "slot w h p' d' = t")
      case True
      from slot_inj[OF p' q True[unfolded t_def]] have "p' = neighbour p d" "d' = inverse_dir d"
        by simp_all
      with True tt show ?thesis by (simp add: conn)
    next
      case nt: False
      show ?thesis
      proof (cases "slot w h p' d' = f")
        case True
        from slot_inj[OF p' p True[unfolded f_def]] have "p' = p" "d' = d" by simp_all
        with True nt tf show ?thesis by (simp add: conn)
      next
        case False
        with nt old[OF p', of d'] show ?thesis by (simp add: conn)
      qed
    qed
  qed
  have "connect_inv w h b'"
    unfolding connect_inv_def using wb hb pb len new by (simp add: b'_def)
  moreover have "connection (edges b' ! slot w h p d) \<noteq> None"
    using ft by (simp add: conn f_def[symmetric])
  moreover have "\<forall>e. connection (edges b ! e) \<noteq> None \<longrightarrow> connection (edges b' ! e) \<noteq> None"
    by (simp add: conn)
  ultimately show ?thesis using cp by blast
qed

lemma connect_loop_inv:
  "connect_inv w h b \<Longrightarrow> \<forall>v \<in> set vs. inside w h (fst v) \<Longrightarrow>
   \<exists>b'. connect_loop vs b = Inr (True, b')
        \<and> connect_inv w h b'
        \<and> (\<forall>e. connection (edges b ! e) \<noteq> None \<longrightarrow> connection (edges b' ! e) \<noteq> None)
        \<and> (\<forall>v \<in> set vs. inside w h (neighbour (fst v) (snd v)) \<longrightarrow>
              connection (edges b' ! slot w h (fst v) (snd v)) \<noteq> None)"
proof (induction vs arbitrary: b)
  case Nil
  then show ?case by simp
next
  case (Cons v vs)
  obtain p d where v: "v = (p, d)" by (cases v)
  from Cons.prems(2) v have p: "inside w h p" and rest: "\<forall>v \<in> set vs. inside w h (fst v)"
    by simp_all
  from Cons.prems(1) have dims: "width b = w" "height b = h"
    by (simp_all add: connect_inv_def)
  show ?case
  proof (cases "inside w h (neighbour p d)")
    case False
    from Cons.IH[OF Cons.prems(1) rest] obtain b' where
      b': "connect_loop vs b = Inr (True, b')" "connect_inv w h b'"
      "\<forall>e. connection (edges b ! e) \<noteq> None \<longrightarrow> connection (edges b' ! e) \<noteq> None"
      "\<forall>v \<in> set vs. inside w h (neighbour (fst v) (snd v)) \<longrightarrow>
              connection (edges b' ! slot w h (fst v) (snd v)) \<noteq> None"
      by blast
    have "connect_loop (v # vs) b = Inr (True, b')"
      using False b'(1) dims by (simp add: v in_bounds_inside)
    with b'(2,3,4) False v show ?thesis by simp
  next
    case True
    from connect_step[OF Cons.prems(1) p True] obtain b1 where
      b1: "connect_pieces b p (neighbour p d) = Inr (True, b1)" "connect_inv w h b1"
      "connection (edges b1 ! slot w h p d) \<noteq> None"
      "\<forall>e. connection (edges b ! e) \<noteq> None \<longrightarrow> connection (edges b1 ! e) \<noteq> None"
      by blast
    from Cons.IH[OF b1(2) rest] obtain b' where
      b': "connect_loop vs b1 = Inr (True, b')" "connect_inv w h b'"
      "\<forall>e. connection (edges b1 ! e) \<noteq> None \<longrightarrow> connection (edges b' ! e) \<noteq> None"
      "\<forall>v \<in> set vs. inside w h (neighbour (fst v) (snd v)) \<longrightarrow>
              connection (edges b' ! slot w h (fst v) (snd v)) \<noteq> None"
      by blast
    have "connect_loop (v # vs) b = Inr (True, b')"
      using True b1(1) b'(1) dims by (simp add: v in_bounds_inside)
    moreover have "\<forall>e. connection (edges b ! e) \<noteq> None \<longrightarrow> connection (edges b' ! e) \<noteq> None"
      using b1(4) b'(3) by blast
    moreover have "connection (edges b' ! slot w h p d) \<noteq> None"
      using b1(3) b'(3) by blast
    ultimately show ?thesis using b'(2,4) v by simp
  qed
qed

lemma index_inside:
  assumes "1 < w" and "k < nat w * nat h"
  shows "inside w h (int (k div nat w), int (k mod nat w))"
proof -
  from assms(1) have w: "0 < nat w" by simp
  have "k div nat w < nat h"
    using assms(2) w by (simp add: less_mult_imp_div_less mult.commute)
  then have "int (k div nat w) < h" by linarith
  moreover have "k mod nat w < nat w" using w by simp
  then have "int (k mod nat w) < int (nat w)" by (simp only: of_nat_less_iff)
  then have "int (k mod nat w) < w" using assms(1) by simp
  ultimately show ?thesis by (simp add: inside_def)
qed

lemma grid_positions_set:
  assumes "1 < w"
  shows "p \<in> set (grid_positions w h) \<longleftrightarrow> inside w h p"
proof
  assume "p \<in> set (grid_positions w h)"
  then obtain k where k: "k < nat h * nat w" and pk: "grid_positions w h ! k = p"
    by (auto simp: in_set_conv_nth grid_positions_length)
  from k have k': "k < nat w * nat h" by (simp add: mult.commute)
  from index_inside[OF assms k'] pk grid_positions_nth[OF k] show "inside w h p" by simp
next
  assume ins: "inside w h p"
  define k where "k = nat (fst p * w + snd p)"
  from inside_index(2)[OF ins] have k: "k < nat h * nat w" by (simp add: k_def mult.commute)
  from grid_positions_nth[OF k] inside_div_mod[OF ins]
  have "grid_positions w h ! k = p" by (simp add: k_def prod_eq_iff)
  with k show "p \<in> set (grid_positions w h)"
    by (auto simp: in_set_conv_nth grid_positions_length)
qed

lemma slot_visits_set:
  assumes "1 < w"
  shows "v \<in> set (slot_visits w h) \<longleftrightarrow> inside w h (fst v)"
proof -
  have "set directions = UNIV"
  proof -
    have "d \<in> set directions" for d by (cases d) (simp_all add: directions_def)
    then show ?thesis by blast
  qed
  then have "v \<in> set (slot_visits w h) \<longleftrightarrow> fst v \<in> set (grid_positions w h)"
    by (cases v) (auto simp: slot_visits_def)
  with grid_positions_set[OF assms] show ?thesis by simp
qed

lemma fresh_board_inv:
  assumes "1 < w" and "1 < h"
  shows "connect_inv w h \<lparr>width = w, height = h, pieces = fresh_pieces w h,
                           edges = replicate (4 * (nat w * nat h)) default_edge\<rparr>"
  unfolding connect_inv_def using slot_bound[of w h]
  by (simp add: default_edge_def)

text \<open>What \<^verbatim>\<open>connect_adjacent_edges\<close> makes of a fresh board.\<close>

lemma connected_fresh_board:
  assumes "1 < w" and "1 < h"
  shows "\<exists>b0 b. new_board w h = Inr b0 \<and> connect_adjacent_edges b0 = Inr (True, b)
           \<and> width b = w \<and> height b = h \<and> pieces b = fresh_pieces w h
           \<and> length (edges b) = 4 * (nat w * nat h)
           \<and> (\<forall>p d. inside w h p \<longrightarrow> connection (edges b ! slot w h p d) = seam_target w h p d)"
proof -
  define b0 where "b0 = \<lparr>width = w, height = h, pieces = fresh_pieces w h,
                           edges = replicate (4 * (nat w * nat h)) default_edge\<rparr>"
  have nb: "new_board w h = Inr b0"
    unfolding b0_def by (rule new_board_fresh[OF assms])
  have inv0: "connect_inv w h b0"
    unfolding b0_def by (rule fresh_board_inv[OF assms])
  have vis: "\<forall>v \<in> set (slot_visits w h). inside w h (fst v)"
    by (simp add: slot_visits_set[OF assms(1)])
  from connect_loop_inv[OF inv0 vis] obtain b where
    cl: "connect_loop (slot_visits w h) b0 = Inr (True, b)" and inv: "connect_inv w h b"
    and visited: "\<forall>v \<in> set (slot_visits w h). inside w h (neighbour (fst v) (snd v)) \<longrightarrow>
              connection (edges b ! slot w h (fst v) (snd v)) \<noteq> None"
    by blast
  have ca: "connect_adjacent_edges b0 = Inr (True, b)"
    using cl by (simp add: connect_adjacent_edges_def b0_def)
  from inv have wb: "width b = w" and hb: "height b = h" and pb: "pieces b = fresh_pieces w h"
    and len: "length (edges b) = 4 * (nat w * nat h)"
    and old': "\<forall>p d. inside w h p \<longrightarrow>
            connection (edges b ! slot w h p d) = None
            \<or> connection (edges b ! slot w h p d) = seam_target w h p d"
    unfolding connect_inv_def by simp_all
  have tgt: "\<forall>p d. inside w h p \<longrightarrow> connection (edges b ! slot w h p d) = seam_target w h p d"
  proof (intro allI impI)
    fix p d assume p: "inside w h p"
    show "connection (edges b ! slot w h p d) = seam_target w h p d"
    proof (cases "inside w h (neighbour p d)")
      case True
      from p have "(p, d) \<in> set (slot_visits w h)"
        by (simp add: slot_visits_set[OF assms(1)])
      with visited True have "connection (edges b ! slot w h p d) \<noteq> None" by force
      with old'[rule_format, OF p, of d] show ?thesis by simp
    next
      case False
      then have "seam_target w h p d = None" by (simp add: seam_target_def)
      with old'[rule_format, OF p, of d] show ?thesis by auto
    qed
  qed
  from nb ca wb hb pb len tgt show ?thesis by blast
qed

text \<open>
  C5.  For every width and height greater than 1, constructing the board and running
  \<^verbatim>\<open>connect_adjacent_edges\<close> raises nothing and returns success.  The board has
  \<open>w * h\<close> pieces, the piece at list index \<open>k\<close> (row \<open>k div w\<close>, column \<open>k mod w\<close>)
  has id \<open>k\<close>, and there are \<open>4 * w * h\<close> edges.  The edge slot that a direction
  addresses at a position has no connection exactly when the neighbour in that
  direction is out of bounds; every edge is addressed by some position and direction;
  and the connection of a connected edge leads back to it.
\<close>

theorem fresh_board_connections:
  assumes "1 < w" and "1 < h"
  shows "\<exists>b0 b. new_board w h = Inr b0 \<and> connect_adjacent_edges b0 = Inr (True, b)
     \<and> length (pieces b) = nat (w * h)
     \<and> (\<forall>k < nat (w * h). piece_id (pieces b ! k) = k)
     \<and> length (edges b) = 4 * nat (w * h)
     \<and> (\<forall>p d. in_bounds b p \<longrightarrow>
           (\<exists>e. get_edge_index b p d = Inr e \<and> e < length (edges b)
                \<and> (connection (edges b ! e) = None \<longleftrightarrow> \<not> in_bounds b (neighbour p d))))
     \<and> (\<forall>e < length (edges b). \<exists>p d. in_bounds b p \<and> get_edge_index b p d = Inr e)
     \<and> (\<forall>e < length (edges b). \<forall>c. connection (edges b ! e) = Some c \<longrightarrow>
           c < length (edges b) \<and> connection (edges b ! c) = Some e)"
proof -
  from connected_fresh_board[OF assms] obtain b0 b where
    nb: "new_board w h = Inr b0" and ca: "connect_adjacent_edges b0 = Inr (True, b)"
    and wb: "width b = w" and hb: "height b = h" and pb: "pieces b = fresh_pieces w h"
    and len: "length (edges b) = 4 * (nat w * nat h)"
    and tgt: "\<forall>p d. inside w h p \<longrightarrow> connection (edges b ! slot w h p d) = seam_target w h p d"
    by blast
  have wh: "nat (w * h) = nat w * nat h"
    using assms by (simp add: nat_mult_distrib)
  have inb: "\<And>p. in_bounds b p = inside w h p"
    by (simp add: in_bounds_inside wb hb)
  have c1: "length (pieces b) = nat (w * h)"
    by (simp add: pb fresh_pieces_length wh)
  have c2: "\<forall>k < nat (w * h). piece_id (pieces b ! k) = k"
    by (simp add: pb fresh_pieces_def wh)
  have c3: "length (edges b) = 4 * nat (w * h)"
    by (simp add: len wh)
  have c4: "\<forall>p d. in_bounds b p \<longrightarrow>
           (\<exists>e. get_edge_index b p d = Inr e \<and> e < length (edges b)
                \<and> (connection (edges b ! e) = None \<longleftrightarrow> \<not> in_bounds b (neighbour p d)))"
  proof (intro allI impI)
    fix p d assume "in_bounds b p"
    then have p: "inside w h p" by (simp add: inb)
    have "get_edge_index b p d = Inr (slot w h p d)"
      by (rule get_edge_index_fresh[OF pb wb p])
    moreover have "slot w h p d < length (edges b)"
      using slot_bound[OF p] by (simp add: len)
    moreover have "connection (edges b ! slot w h p d) = None \<longleftrightarrow> \<not> in_bounds b (neighbour p d)"
    proof (cases "inside w h (neighbour p d)")
      case True
      then have "seam_target w h p d \<noteq> None" by (simp add: seam_target_def)
      with tgt[rule_format, OF p, of d] have "connection (edges b ! slot w h p d) \<noteq> None"
        by simp
      with True show ?thesis by (simp only: inb simp_thms)
    next
      case False
      then have "seam_target w h p d = None" by (simp add: seam_target_def)
      with tgt[rule_format, OF p, of d] have "connection (edges b ! slot w h p d) = None"
        by simp
      with False show ?thesis by (simp only: inb simp_thms)
    qed
    ultimately show "\<exists>e. get_edge_index b p d = Inr e \<and> e < length (edges b)
                \<and> (connection (edges b ! e) = None \<longleftrightarrow> \<not> in_bounds b (neighbour p d))"
      by (intro exI[of _ "slot w h p d"] conjI)
  qed
  have c5: "\<forall>e < length (edges b). \<exists>p d. in_bounds b p \<and> get_edge_index b p d = Inr e"
  proof (intro allI impI)
    fix e assume "e < length (edges b)"
    then have "e < 4 * (nat w * nat h)" by (simp add: len)
    from slot_surj[OF assms(1) this] obtain p d where p: "inside w h p" and e: "slot w h p d = e"
      by blast
    from p have "in_bounds b p" by (simp add: inb)
    moreover from get_edge_index_fresh[OF pb wb p, of d] e
    have "get_edge_index b p d = Inr e" by simp
    ultimately show "\<exists>p d. in_bounds b p \<and> get_edge_index b p d = Inr e"
      by (intro exI[of _ p] exI[of _ d] conjI)
  qed
  have c6: "\<forall>e < length (edges b). \<forall>c. connection (edges b ! e) = Some c \<longrightarrow>
           c < length (edges b) \<and> connection (edges b ! c) = Some e"
  proof (intro allI impI)
    fix e c assume el: "e < length (edges b)" and ec: "connection (edges b ! e) = Some c"
    from el have "e < 4 * (nat w * nat h)" by (simp add: len)
    from slot_surj[OF assms(1) this] obtain p d where p: "inside w h p" and e: "slot w h p d = e"
      by blast
    from tgt[rule_format, OF p, of d] e ec have st: "seam_target w h p d = Some c" by simp
    then have q: "inside w h (neighbour p d)"
      and c: "c = slot w h (neighbour p d) (inverse_dir d)"
      by (auto simp: seam_target_def split: if_splits)
    from slot_bound[OF q] have "c < length (edges b)" by (simp add: c len)
    moreover from tgt[rule_format, OF q, of "inverse_dir d"] have "connection (edges b ! c)
        = seam_target w h (neighbour p d) (inverse_dir d)"
      by (simp add: c)
    then have "connection (edges b ! c) = Some e"
      using p e by (simp add: seam_target_def)
    ultimately show "c < length (edges b) \<and> connection (edges b ! c) = Some e" by simp
  qed
  from nb ca c1 c2 c3 c4 c5 c6 show ?thesis by (intro exI conjI)
qed

theorem fresh_board_connections_witness:
  "(1 :: int) < 3 \<and> (1 :: int) < 2
   \<and> (\<exists>b0 b. new_board 3 2 = Inr b0 \<and> connect_adjacent_edges b0 = Inr (True, b)
     \<and> length (pieces b) = nat (3 * 2)
     \<and> (\<forall>k < nat (3 * 2). piece_id (pieces b ! k) = k)
     \<and> length (edges b) = 4 * nat (3 * 2)
     \<and> (\<forall>p d. in_bounds b p \<longrightarrow>
           (\<exists>e. get_edge_index b p d = Inr e \<and> e < length (edges b)
                \<and> (connection (edges b ! e) = None \<longleftrightarrow> \<not> in_bounds b (neighbour p d))))
     \<and> (\<forall>e < length (edges b). \<exists>p d. in_bounds b p \<and> get_edge_index b p d = Inr e)
     \<and> (\<forall>e < length (edges b). \<forall>c. connection (edges b ! e) = Some c \<longrightarrow>
           c < length (edges b) \<and> connection (edges b ! c) = Some e))"
proof -
  have a: "(1 :: int) < 3" and b: "(1 :: int) < 2" by simp_all
  from conjI[OF a conjI[OF b fresh_board_connections[OF a b]]] show ?thesis .
qed

subsection \<open>The 2 by 2 board\<close>

lemma attempt_2x2:
  assumes "is_shuffle (sh_edges rnd)" and "is_shuffle (sh_centers rnd)"
  shows "attempt rnd 2 2 = unshuffled_attempt 2 2"
proof (cases "connected_board 2 2")
  case (Inl e)
  then show ?thesis by (simp add: attempt_connected unshuffled_attempt_def)
next
  case (Inr b1)
  from connected_board_dims[OF Inr] have "width b1 = 2" "height b1 = 2" by simp_all
  from shuffle_2x2[OF assms this] Inr show ?thesis
    by (simp add: attempt_connected unshuffled_attempt_def)
qed

lemma unshuffled_2x2:
  "\<not> isl (unshuffled_attempt 2 2) \<and> fst (projr (unshuffled_attempt 2 2))
   \<and> width (snd (projr (unshuffled_attempt 2 2))) = 2
   \<and> height (snd (projr (unshuffled_attempt 2 2))) = 2
   \<and> \<not> isl (new_board 2 2)
   \<and> pieces (snd (projr (unshuffled_attempt 2 2))) = pieces (projr (new_board 2 2))"
  by code_simp

lemma main_2x2:
  assumes "is_shuffle (sh_edges (rnd 0))" and "is_shuffle (sh_centers (rnd 0))"
  shows "main rnd 2 2 = Some (Inr (snd (projr (unshuffled_attempt 2 2)),
                                    snd (projr (unshuffled_attempt 2 2))))"
proof -
  define r where "r = projr (unshuffled_attempt 2 2)"
  define fresh where "fresh = projr (new_board 2 2)"
  from unshuffled_2x2 have u: "unshuffled_attempt 2 2 = Inr r" and ok: "fst r"
    and w: "width (snd r) = 2" and h: "height (snd r) = 2"
    and n: "new_board 2 2 = Inr fresh"
    and p: "pieces (snd r) = pieces fresh"
    by (simp_all add: r_def fresh_def)
  from assms have "attempt (rnd 0) 2 2 = Inr r"
    by (simp add: attempt_2x2 u)
  with ok have "generation_loop rnd 2 2 0 = Some (Inr (snd r))"
    by (subst generation_loop.simps) simp
  then have "main rnd 2 2 = Some (Inr ((snd r)\<lparr>pieces := pieces fresh\<rparr>, snd r))"
    by (simp add: main_def w h n)
  also have "(snd r)\<lparr>pieces := pieces fresh\<rparr> = snd r"
    using p by simp
  finally show ?thesis by (simp add: r_def)
qed

text \<open>
  C10.  On a board of width 2 and height 2 both candidate lists of \<^verbatim>\<open>shuffle\<close> are
  empty and \<^verbatim>\<open>shuffle\<close> returns the board unchanged, whatever the random source;
  and \<^verbatim>\<open>main\<close> for a 2 by 2 puzzle returns, after its first pass, an ``Initial''
  view and a ``Final'' view that are the same board.
\<close>

theorem shuffle_is_noop_on_2x2:
  assumes "\<forall>k. is_shuffle (sh_edges (rnd k)) \<and> is_shuffle (sh_centers (rnd k))"
  shows "(\<forall>b k. width b = 2 \<and> height b = 2 \<longrightarrow>
            border_candidates b = [] \<and> center_candidates b = []
            \<and> shuffle (sh_edges (rnd k)) (sh_centers (rnd k)) (choice (rnd k)) b = Inr b)
         \<and> (\<exists>board. main rnd 2 2 = Some (Inr (board, board)))"
proof (intro conjI allI impI)
  fix b :: Board and k
  assume "width b = 2 \<and> height b = 2"
  then show "border_candidates b = []" and "center_candidates b = []"
    by (simp_all add: border_candidates_def center_candidates_def py_range2_def)
next
  fix b :: Board and k
  assume "width b = 2 \<and> height b = 2"
  with assms show "shuffle (sh_edges (rnd k)) (sh_centers (rnd k)) (choice (rnd k)) b = Inr b"
    by (simp add: shuffle_2x2)
next
  from assms have "is_shuffle (sh_edges (rnd 0))" "is_shuffle (sh_centers (rnd 0))" by simp_all
  from main_2x2[of rnd, OF this]
  show "\<exists>board. main rnd 2 2 = Some (Inr (board, board))" by blast
qed

lemma is_shuffle_rev: "is_shuffle rev"
  by (simp add: is_shuffle_def)

theorem shuffle_is_noop_on_2x2_witness:
  "(\<forall>k :: nat. is_shuffle rev \<and> is_shuffle rev)
   \<and> width (projr (connected_board 2 2)) = 2 \<and> height (projr (connected_board 2 2)) = 2
   \<and> shuffle rev rev (\<lambda>k. R90) (projr (connected_board 2 2)) = Inr (projr (connected_board 2 2))
   \<and> (\<exists>board. main (\<lambda>k. \<lparr>sh_edges = rev, sh_centers = rev, choice = (\<lambda>k. R90)\<rparr>) 2 2
                 = Some (Inr (board, board)))"
proof -
  have d: "width (projr (connected_board 2 2)) = 2 \<and> height (projr (connected_board 2 2)) = 2"
    by code_simp
  have s: "\<forall>k :: nat. is_shuffle (sh_edges \<lparr>sh_edges = rev, sh_centers = rev, choice = (\<lambda>k. R90)\<rparr>)
            \<and> is_shuffle (sh_centers \<lparr>sh_edges = rev, sh_centers = rev, choice = (\<lambda>k. R90)\<rparr>)"
    by (simp add: is_shuffle_rev)
  from shuffle_is_noop_on_2x2[OF s] d show ?thesis
    by (simp add: is_shuffle_rev)
qed

subsection \<open>Shuffle on the connected board\<close>

lemma edge_count_flat:
  "base + 3 < length es \<Longrightarrow> edge_count es base = Inr (length (flat_offsets es base))"
  by (simp add: edge_count_def flat_offsets_def)

lemma py_index_inside:
  assumes "inside w h p"
  shows "py_index (nat w * nat h) (fst p * w + snd p) = Some (nat (fst p * w + snd p))"
proof -
  have k: "nat (fst p * w + snd p) < nat w * nat h" by (rule inside_index(2)[OF assms])
  have nn: "0 \<le> fst p * w + snd p" by (rule inside_index(3)[OF assms])
  with k have "fst p * w + snd p < int (nat w * nat h)" by linarith
  with nn show ?thesis
    unfolding py_index_def by (simp only: if_True simp_thms)
qed

lemma arranged_base:
  assumes "arranged w h E b" and "k < nat w * nat h"
  shows "\<exists>j < nat w * nat h. piece_edges (pieces b ! k) = 4 * j"
proof -
  from assms(1) have len: "length (pieces b) = nat w * nat h"
    and ms: "mset (map piece_edges (pieces b)) = mset (map (\<lambda>k. 4 * k) [0..<nat w * nat h])"
    by (simp_all add: arranged_def)
  from ms have "set (map piece_edges (pieces b)) = set (map (\<lambda>k. 4 * k) [0..<nat w * nat h])"
    by (rule mset_eq_setD)
  moreover have "piece_edges (pieces b ! k) \<in> set (map piece_edges (pieces b))"
    using assms(2) len by simp
  ultimately have "piece_edges (pieces b ! k) \<in> set (map (\<lambda>k. 4 * k) [0..<nat w * nat h])"
    by simp
  then show ?thesis by auto
qed

lemma none_count_arranged:
  assumes a: "arranged w h E b" and p: "inside w h p"
  shows "none_count b p = Inr (length (flat_offsets E (4 * nat (fst p * w + snd p))))"
proof -
  define k where "k = nat (fst p * w + snd p)"
  from a have wb: "width b = w" and eb: "edges b = E" and lenE: "length E = 4 * (nat w * nat h)"
    and len: "length (pieces b) = nat w * nat h"
    and fl: "\<forall>k < nat w * nat h.
           flat_offsets E (piece_edges (pieces b ! k)) = flat_offsets E (4 * k)
           \<and> (flat_offsets E (4 * k) \<noteq> [] \<longrightarrow> rotation (pieces b ! k) = rotation (fresh_pieces w h ! k))"
    by (simp_all add: arranged_def)
  have kn: "k < nat w * nat h" unfolding k_def by (rule inside_index(2)[OF p])
  have "py_index (length (pieces b)) (get_piece_index b p) = Some k"
    using py_index_inside[OF p] by (simp add: len get_piece_index_def wb k_def)
  then have g: "py_get (pieces b) (get_piece_index b p) = Inr (pieces b ! k)"
    by (rule py_get_index)
  from arranged_base[OF a kn] obtain j where j: "j < nat w * nat h"
    "piece_edges (pieces b ! k) = 4 * j" by blast
  then have "piece_edges (pieces b ! k) + 3 < length E" by (simp add: lenE)
  then have "edge_count E (piece_edges (pieces b ! k))
      = Inr (length (flat_offsets E (piece_edges (pieces b ! k))))"
    by (rule edge_count_flat)
  also have "flat_offsets E (piece_edges (pieces b ! k)) = flat_offsets E (4 * k)"
    using fl kn by blast
  finally show ?thesis
    by (simp add: none_count_piece g eb k_def)
qed

lemma exchanged_length [simp]: "length (exchanged keep kx ky ps) = length ps"
  by (simp add: exchanged_def)

lemma exchanged_nth:
  "k < length ps \<Longrightarrow> exchanged keep kx ky ps ! k =
     (let q = ps ! (if k = kx then ky else if k = ky then kx else k)
      in if keep then q\<lparr>rotation := rotation (ps ! k)\<rparr> else q)"
  by (simp add: exchanged_def Let_def)

lemma exchanged_bases:
  assumes "kx < length ps" and "ky < length ps"
  shows "mset (map piece_edges (exchanged keep kx ky ps)) = mset (map piece_edges ps)"
proof -
  have "map piece_edges (exchanged keep kx ky ps)
      = (map piece_edges ps)[ky := map piece_edges ps ! kx, kx := map piece_edges ps ! ky]"
    using assms
    by (intro nth_equalityI) (auto simp: exchanged_nth Let_def nth_list_update)
  moreover have "mset ((map piece_edges ps)[ky := map piece_edges ps ! kx, kx := map piece_edges ps ! ky])
      = mset (map piece_edges ps)"
    by (rule mset_swap) (use assms in simp_all)
  ultimately show ?thesis by (simp only:)
qed

lemma swap_result:
  assumes nx: "none_count b x = Inr n" and ny: "none_count b y = Inr n"
    and kx: "py_index (length (pieces b)) (get_piece_index b x) = Some kx"
    and ky: "py_index (length (pieces b)) (get_piece_index b y) = Some ky"
  shows "swap b x y = Inr (True, b\<lparr>pieces := exchanged (0 < n) kx ky (pieces b)\<rparr>)"
proof -
  define ps where "ps = pieces b"
  from kx ky have lx: "kx < length ps" and ly: "ky < length ps"
    by (auto simp: ps_def dest: py_index_less)
  show ?thesis
  proof (cases "0 < n")
    case True
    define ps1 where "ps1 = ps[kx := (ps ! kx)\<lparr>rotation := rotation (ps ! ky)\<rparr>]"
    define ps2 where "ps2 = ps1[ky := (ps1 ! ky)\<lparr>rotation := rotation (ps ! kx)\<rparr>]"
    have "swap b x y = Inr (True, b\<lparr>pieces := ps2[kx := ps2 ! ky, ky := ps2 ! kx]\<rparr>)"
      using nx ny kx ky True
      by (simp add: swap_def py_get_index py_set_index swap_pieces_def Let_def
            get_piece_index_def ps_def ps1_def ps2_def)
    moreover have "ps2[kx := ps2 ! ky, ky := ps2 ! kx] = exchanged True kx ky ps"
      using lx ly
      by (intro nth_equalityI)
         (auto simp: exchanged_nth Let_def nth_list_update ps1_def ps2_def)
    ultimately show ?thesis using True by (simp add: ps_def)
  next
    case False
    have "swap b x y = Inr (True, b\<lparr>pieces := ps[kx := ps ! ky, ky := ps ! kx]\<rparr>)"
      using nx ny kx ky False
      by (simp add: swap_def py_get_index py_set_index swap_pieces_def Let_def
            get_piece_index_def ps_def)
    moreover have "ps[kx := ps ! ky, ky := ps ! kx] = exchanged False kx ky ps"
      using lx ly
      by (intro nth_equalityI)
         (auto simp: exchanged_nth Let_def nth_list_update)
    ultimately show ?thesis using False by (simp add: ps_def)
  qed
qed

lemma swap_arranged:
  assumes a: "arranged w h E b" and x: "inside w h x" and y: "inside w h y"
    and f: "flat_offsets E (4 * nat (fst x * w + snd x)) = flat_offsets E (4 * nat (fst y * w + snd y))"
  shows "\<exists>b'. swap b x y = Inr (True, b') \<and> arranged w h E b'"
proof -
  define kx where "kx = nat (fst x * w + snd x)"
  define ky where "ky = nat (fst y * w + snd y)"
  define n where "n = length (flat_offsets E (4 * kx))"
  define ps where "ps = pieces b"
  from a have wb: "width b = w" and hb: "height b = h" and eb: "edges b = E"
    and lenE: "length E = 4 * (nat w * nat h)"
    and len: "length ps = nat w * nat h"
    and ms: "mset (map piece_edges ps) = mset (map (\<lambda>k. 4 * k) [0..<nat w * nat h])"
    and fl: "\<forall>k < nat w * nat h.
           flat_offsets E (piece_edges (ps ! k)) = flat_offsets E (4 * k)
           \<and> (flat_offsets E (4 * k) \<noteq> [] \<longrightarrow> rotation (ps ! k) = rotation (fresh_pieces w h ! k))"
    by (simp_all add: arranged_def ps_def)
  have lx: "kx < nat w * nat h" unfolding kx_def by (rule inside_index(2)[OF x])
  have ly: "ky < nat w * nat h" unfolding ky_def by (rule inside_index(2)[OF y])
  have ff: "flat_offsets E (4 * kx) = flat_offsets E (4 * ky)"
    using f by (simp add: kx_def ky_def)
  have nx: "none_count b x = Inr n"
    using none_count_arranged[OF a x] by (simp add: n_def kx_def)
  have ny: "none_count b y = Inr n"
    using none_count_arranged[OF a y] f by (simp add: n_def kx_def)
  have ix: "py_index (length (pieces b)) (get_piece_index b x) = Some kx"
    using py_index_inside[OF x] len by (simp add: get_piece_index_def wb kx_def ps_def)
  have iy: "py_index (length (pieces b)) (get_piece_index b y) = Some ky"
    using py_index_inside[OF y] len by (simp add: get_piece_index_def wb ky_def ps_def)
  define P where "P = exchanged (0 < n) kx ky ps"
  have sw: "swap b x y = Inr (True, b\<lparr>pieces := P\<rparr>)"
    unfolding P_def ps_def by (rule swap_result[OF nx ny ix iy])
  have lP: "length P = nat w * nat h" by (simp add: P_def len)
  have mP: "mset (map piece_edges P) = mset (map (\<lambda>k. 4 * k) [0..<nat w * nat h])"
    unfolding P_def using exchanged_bases[of kx ps ky "0 < n"] lx ly len ms by simp
  have fP: "\<forall>k < nat w * nat h.
           flat_offsets E (piece_edges (P ! k)) = flat_offsets E (4 * k)
           \<and> (flat_offsets E (4 * k) \<noteq> [] \<longrightarrow> rotation (P ! k) = rotation (fresh_pieces w h ! k))"
  proof (intro allI impI)
    fix k assume k: "k < nat w * nat h"
    define t where "t = (if k = kx then ky else if k = ky then kx else k)"
    have tl: "t < nat w * nat h" using k lx ly by (simp add: t_def)
    have ft: "flat_offsets E (4 * t) = flat_offsets E (4 * k)"
      using ff by (auto simp: t_def)
    have pe: "piece_edges (P ! k) = piece_edges (ps ! t)"
      using k len by (simp add: P_def exchanged_nth Let_def t_def)
    have c1: "flat_offsets E (piece_edges (P ! k)) = flat_offsets E (4 * k)"
      using fl tl ft by (simp add: pe)
    have c2: "rotation (P ! k) = rotation (fresh_pieces w h ! k)"
      if ne: "flat_offsets E (4 * k) \<noteq> []"
    proof (cases "t = k")
      case True
      have "rotation (P ! k) = rotation (ps ! k)"
        using k len True by (simp add: P_def exchanged_nth Let_def t_def[symmetric])
      with fl k ne show ?thesis by simp
    next
      case False
      then have "k = kx \<or> k = ky" by (auto simp: t_def split: if_splits)
      with ff have "flat_offsets E (4 * k) = flat_offsets E (4 * kx)" by auto
      with ne have "0 < n" by (simp add: n_def)
      then have "rotation (P ! k) = rotation (ps ! k)"
        using k len by (simp add: P_def exchanged_nth Let_def)
      with fl k ne show ?thesis by simp
    qed
    from c1 c2 show "flat_offsets E (piece_edges (P ! k)) = flat_offsets E (4 * k)
           \<and> (flat_offsets E (4 * k) \<noteq> [] \<longrightarrow> rotation (P ! k) = rotation (fresh_pieces w h ! k))"
      by blast
  qed
  have "arranged w h E (b\<lparr>pieces := P\<rparr>)"
    unfolding arranged_def using wb hb eb lenE lP mP fP by simp
  with sw show ?thesis by blast
qed

lemma asserted_swap_arranged:
  assumes "arranged w h E b" and "inside w h x" and "inside w h y"
    and "flat_offsets E (4 * nat (fst x * w + snd x)) = flat_offsets E (4 * nat (fst y * w + snd y))"
  shows "\<exists>b'. asserted_swap b x y = Inr b' \<and> arranged w h E b'"
proof -
  from swap_arranged[OF assms] obtain b' where "swap b x y = Inr (True, b')" "arranged w h E b'"
    by blast
  then show ?thesis by (simp add: asserted_swap_def)
qed

lemma set_rotation_arranged:
  assumes a: "arranged w h E b" and x: "inside w h x"
    and f: "flat_offsets E (4 * nat (fst x * w + snd x)) = []"
  shows "\<exists>b'. set_rotation b x r = Inr b' \<and> arranged w h E b'"
proof -
  define kx where "kx = nat (fst x * w + snd x)"
  define ps where "ps = pieces b"
  from a have wb: "width b = w" and hb: "height b = h" and eb: "edges b = E"
    and lenE: "length E = 4 * (nat w * nat h)"
    and len: "length ps = nat w * nat h"
    and ms: "mset (map piece_edges ps) = mset (map (\<lambda>k. 4 * k) [0..<nat w * nat h])"
    and fl: "\<forall>k < nat w * nat h.
           flat_offsets E (piece_edges (ps ! k)) = flat_offsets E (4 * k)
           \<and> (flat_offsets E (4 * k) \<noteq> [] \<longrightarrow> rotation (ps ! k) = rotation (fresh_pieces w h ! k))"
    by (simp_all add: arranged_def ps_def)
  have lx: "kx < nat w * nat h" unfolding kx_def by (rule inside_index(2)[OF x])
  have ix: "py_index (length (pieces b)) (get_piece_index b x) = Some kx"
    using py_index_inside[OF x] len by (simp add: get_piece_index_def wb kx_def ps_def)
  define P where "P = ps[kx := (ps ! kx)\<lparr>rotation := r\<rparr>]"
  have sr: "set_rotation b x r = Inr (b\<lparr>pieces := P\<rparr>)"
    using ix by (simp add: set_rotation_def py_get_index py_set_index P_def ps_def)
  have pe: "map piece_edges P = map piece_edges ps"
    using lx len by (intro nth_equalityI) (auto simp: P_def nth_list_update)
  have fP: "\<forall>k < nat w * nat h.
           flat_offsets E (piece_edges (P ! k)) = flat_offsets E (4 * k)
           \<and> (flat_offsets E (4 * k) \<noteq> [] \<longrightarrow> rotation (P ! k) = rotation (fresh_pieces w h ! k))"
  proof (intro allI impI)
    fix k assume k: "k < nat w * nat h"
    show "flat_offsets E (piece_edges (P ! k)) = flat_offsets E (4 * k)
           \<and> (flat_offsets E (4 * k) \<noteq> [] \<longrightarrow> rotation (P ! k) = rotation (fresh_pieces w h ! k))"
    proof (cases "k = kx")
      case True
      with fl k f len show ?thesis by (simp add: P_def kx_def)
    next
      case False
      with fl k show ?thesis by (simp add: P_def)
    qed
  qed
  have "arranged w h E (b\<lparr>pieces := P\<rparr>)"
    unfolding arranged_def using wb hb eb lenE len ms fP by (simp add: pe) (simp add: P_def)
  with sr show ?thesis by blast
qed

lemma border_triples_arranged:
  "arranged w h E b \<Longrightarrow>
   \<forall>p \<in> set ps. inside w h p \<and> flat_offsets E (4 * nat (fst p * w + snd p)) = F \<Longrightarrow>
   \<exists>b'. border_triples ps b = Inr b' \<and> arranged w h E b'"
proof (induction ps b rule: border_triples.induct)
  case (1 e0 e1 e2 rest b)
  from "1.prems"(2) have i0: "inside w h e0" and i1: "inside w h e1" and i2: "inside w h e2"
    and f01: "flat_offsets E (4 * nat (fst e0 * w + snd e0)) = flat_offsets E (4 * nat (fst e1 * w + snd e1))"
    and f02: "flat_offsets E (4 * nat (fst e0 * w + snd e0)) = flat_offsets E (4 * nat (fst e2 * w + snd e2))"
    and r: "\<forall>p \<in> set rest. inside w h p \<and> flat_offsets E (4 * nat (fst p * w + snd p)) = F"
    by simp_all
  from asserted_swap_arranged[OF "1.prems"(1) i0 i1 f01] obtain b1 where
    b1: "asserted_swap b e0 e1 = Inr b1" "arranged w h E b1" by blast
  from asserted_swap_arranged[OF b1(2) i0 i2 f02] obtain b2 where
    b2: "asserted_swap b1 e0 e2 = Inr b2" "arranged w h E b2" by blast
  from "1.IH"[OF b2(2) r] obtain b' where
    "border_triples rest b2 = Inr b'" "arranged w h E b'" by blast
  with b1(1) b2(1) show ?case by simp
qed auto

lemma center_triples_arranged:
  "arranged w h E b \<Longrightarrow>
   \<forall>p \<in> set ps. inside w h p \<and> flat_offsets E (4 * nat (fst p * w + snd p)) = [] \<Longrightarrow>
   \<exists>b'. center_triples ch k ps b = Inr b' \<and> arranged w h E b'"
proof (induction ch k ps b rule: center_triples.induct)
  case (1 ch k c0 c1 c2 rest b)
  from "1.prems"(2) have i0: "inside w h c0" and i1: "inside w h c1" and i2: "inside w h c2"
    and f0: "flat_offsets E (4 * nat (fst c0 * w + snd c0)) = []"
    and f01: "flat_offsets E (4 * nat (fst c0 * w + snd c0)) = flat_offsets E (4 * nat (fst c1 * w + snd c1))"
    and f02: "flat_offsets E (4 * nat (fst c0 * w + snd c0)) = flat_offsets E (4 * nat (fst c2 * w + snd c2))"
    and r: "\<forall>p \<in> set rest. inside w h p \<and> flat_offsets E (4 * nat (fst p * w + snd p)) = []"
    by simp_all
  from asserted_swap_arranged[OF "1.prems"(1) i0 i1 f01] obtain b1 where
    b1: "asserted_swap b c0 c1 = Inr b1" "arranged w h E b1" by blast
  from asserted_swap_arranged[OF b1(2) i0 i2 f02] obtain b2 where
    b2: "asserted_swap b1 c0 c2 = Inr b2" "arranged w h E b2" by blast
  from set_rotation_arranged[OF b2(2) i0 f0] obtain b3 where
    b3: "set_rotation b2 c0 (ch k) = Inr b3" "arranged w h E b3" by blast
  from "1.IH"[OF b3(2) r] obtain b' where
    "center_triples ch (Suc k) rest b3 = Inr b'" "arranged w h E b'" by blast
  with b1(1) b2(1) b3(1) show ?case by simp
qed auto

lemma ex_direction: "(\<exists>d. P d) \<longleftrightarrow> P Up \<or> P Right \<or> P Down \<or> P Left"
  by (metis Direction.exhaust)

lemma flat_offsets_fresh:
  assumes tgt: "\<forall>p d. inside w h p \<longrightarrow> connection (E ! slot w h p d) = seam_target w h p d"
    and p: "inside w h p"
  shows "flat_offsets E (4 * nat (fst p * w + snd p))
         = filter (\<lambda>k. \<exists>d. (rotation_value (initial_rotation w h (fst p) (snd p))
                              + direction_value d) mod 4 = k
                            \<and> \<not> inside w h (neighbour p d)) [0, 1, 2, 3]"
  unfolding flat_offsets_def
proof (rule filter_cong[OF refl])
  fix k :: nat assume "k \<in> set [0, 1, 2, 3]"
  then have k4: "k < 4" by auto
  from offset_surj[OF k4] obtain d where
    d: "(rotation_value (initial_rotation w h (fst p) (snd p)) + direction_value d) mod 4 = k"
    by blast
  then have "slot w h p d = 4 * nat (fst p * w + snd p) + k" by (simp add: slot_def)
  with tgt[rule_format, OF p, of d]
  have c: "connection (E ! (4 * nat (fst p * w + snd p) + k)) = seam_target w h p d" by simp
  have "(\<exists>d'. (rotation_value (initial_rotation w h (fst p) (snd p)) + direction_value d') mod 4 = k
              \<and> \<not> inside w h (neighbour p d')) \<longleftrightarrow> \<not> inside w h (neighbour p d)"
    using d offset_inj by blast
  with c show "(connection (E ! (4 * nat (fst p * w + snd p) + k)) = None)
      = (\<exists>d. (rotation_value (initial_rotation w h (fst p) (snd p)) + direction_value d) mod 4 = k
               \<and> \<not> inside w h (neighbour p d))"
    by (simp add: seam_target_def)
qed

lemma border_flat:
  assumes w: "1 < w" and h: "1 < h"
    and tgt: "\<forall>p d. inside w h p \<longrightarrow> connection (E ! slot w h p d) = seam_target w h p d"
    and cls: "((fst p = 0 \<or> fst p = h - 1) \<and> 1 \<le> snd p \<and> snd p < w - 1)
              \<or> ((snd p = 0 \<or> snd p = w - 1) \<and> 1 \<le> fst p \<and> fst p < h - 1)"
  shows "inside w h p \<and> flat_offsets E (4 * nat (fst p * w + snd p)) = [3]"
proof -
  have p: "inside w h p" using w h cls by (auto simp: inside_def)
  have "flat_offsets E (4 * nat (fst p * w + snd p)) = [3]"
    unfolding flat_offsets_fresh[OF tgt p]
    using w h cls
    by (elim disjE conjE)
       (simp_all add: ex_direction initial_rotation_def neighbour_def inside_def)
  with p show ?thesis by simp
qed

lemma center_flat:
  assumes w: "1 < w" and h: "1 < h"
    and tgt: "\<forall>p d. inside w h p \<longrightarrow> connection (E ! slot w h p d) = seam_target w h p d"
    and cls: "1 \<le> fst p \<and> fst p < h - 1 \<and> 1 \<le> snd p \<and> snd p < w - 1"
  shows "inside w h p \<and> flat_offsets E (4 * nat (fst p * w + snd p)) = []"
proof -
  have p: "inside w h p" using w h cls by (auto simp: inside_def)
  have "flat_offsets E (4 * nat (fst p * w + snd p)) = []"
    unfolding flat_offsets_fresh[OF tgt p]
    using w h cls
    by (simp add: ex_direction initial_rotation_def neighbour_def inside_def)
  with p show ?thesis by simp
qed

lemma border_candidates_class:
  assumes "p \<in> set (border_candidates b)"
  shows "((fst p = 0 \<or> fst p = height b - 1) \<and> 1 \<le> snd p \<and> snd p < width b - 1)
         \<or> ((snd p = 0 \<or> snd p = width b - 1) \<and> 1 \<le> fst p \<and> fst p < height b - 1)"
  using assms by (auto simp: border_candidates_def py_range2_def split: if_splits)

lemma center_candidates_class:
  assumes "p \<in> set (center_candidates b)"
  shows "1 \<le> fst p \<and> fst p < height b - 1 \<and> 1 \<le> snd p \<and> snd p < width b - 1"
  using assms by (auto simp: center_candidates_def py_range2_def)

lemma is_shuffle_set: "is_shuffle sh \<Longrightarrow> set (sh xs) = set xs"
  unfolding is_shuffle_def by (metis mset_eq_setD)

lemma shuffle_arranged:
  assumes w: "1 < w" and h: "1 < h"
    and tgt: "\<forall>p d. inside w h p \<longrightarrow> connection (E ! slot w h p d) = seam_target w h p d"
    and a: "arranged w h E b"
    and se: "is_shuffle she" and sc: "is_shuffle shc"
  shows "\<exists>b'. shuffle she shc ch b = Inr b' \<and> arranged w h E b'"
proof -
  from a have wb: "width b = w" and hb: "height b = h" by (simp_all add: arranged_def)
  have "\<forall>p \<in> set (she (border_candidates b)).
          inside w h p \<and> flat_offsets E (4 * nat (fst p * w + snd p)) = [3]"
    using border_candidates_class[of _ b] border_flat[OF w h tgt]
    by (simp add: is_shuffle_set[OF se] wb hb)
  from border_triples_arranged[OF a this] obtain b1 where
    b1: "border_triples (she (border_candidates b)) b = Inr b1" "arranged w h E b1" by blast
  from b1(2) have wb1: "width b1 = w" and hb1: "height b1 = h" by (simp_all add: arranged_def)
  have "\<forall>p \<in> set (shc (center_candidates b1)).
          inside w h p \<and> flat_offsets E (4 * nat (fst p * w + snd p)) = []"
    using center_candidates_class[of _ b1] center_flat[OF w h tgt]
    by (simp add: is_shuffle_set[OF sc] wb1 hb1)
  from center_triples_arranged[OF b1(2) this] obtain b' where
    "center_triples ch 0 (shc (center_candidates b1)) b1 = Inr b'" "arranged w h E b'" by blast
  with b1(1) show ?thesis by (simp add: shuffle_def)
qed

lemma fresh_arranged:
  assumes "1 < w" and "1 < h" and "length E = 4 * (nat w * nat h)"
  shows "arranged w h E \<lparr>width = w, height = h, pieces = fresh_pieces w h, edges = E\<rparr>"
proof -
  have "map piece_edges (fresh_pieces w h) = map (\<lambda>k. 4 * k) [0..<nat w * nat h]"
    by (simp add: fresh_pieces_def o_def)
  moreover have "\<forall>k < nat w * nat h. piece_edges (fresh_pieces w h ! k) = 4 * k"
    by (simp add: fresh_pieces_def)
  ultimately show ?thesis
    unfolding arranged_def using assms by (simp add: fresh_pieces_length)
qed

lemma connected_board_arranged:
  assumes w: "1 < w" and h: "1 < h"
  shows "\<exists>b. connected_board w h = Inr b \<and> arranged w h (edges b) b
            \<and> (\<forall>p d. inside w h p \<longrightarrow> connection (edges b ! slot w h p d) = seam_target w h p d)"
proof -
  from connected_fresh_board[OF assms] obtain b0 b where
    nb: "new_board w h = Inr b0" and ca: "connect_adjacent_edges b0 = Inr (True, b)"
    and wb: "width b = w" and hb: "height b = h" and pb: "pieces b = fresh_pieces w h"
    and len: "length (edges b) = 4 * (nat w * nat h)"
    and tgt: "\<forall>p d. inside w h p \<longrightarrow> connection (edges b ! slot w h p d) = seam_target w h p d"
    by blast
  have "b = \<lparr>width = w, height = h, pieces = fresh_pieces w h, edges = edges b\<rparr>"
    using wb hb pb by simp
  with fresh_arranged[OF w h len] have "arranged w h (edges b) b" by simp
  moreover have "connected_board w h = Inr b"
    using nb ca by (simp add: connected_board_def)
  ultimately show ?thesis using tgt by blast
qed

text \<open>
  C7.  For every width and height greater than 1, \<^verbatim>\<open>shuffle\<close> on the board that the
  constructor and \<^verbatim>\<open>connect_adjacent_edges\<close> built returns a board, for every
  rearrangement that \<^verbatim>\<open>random.shuffle\<close> may produce and every rotation that
  \<^verbatim>\<open>random.choice\<close> may pick: no \<^verbatim>\<open>assert self.swap(...)\<close> fails (a failed assert is
  the value \<open>Inl AssertionError\<close>) and nothing else is raised.  Each swap is between
  two places of the border list, whose pieces have one unconnected edge, or between
  two places of the interior list, whose pieces have none.
\<close>

theorem shuffle_asserts_hold:
  assumes "1 < w" and "1 < h" and "is_shuffle she" and "is_shuffle shc"
  shows "\<exists>b b'. connected_board w h = Inr b \<and> shuffle she shc ch b = Inr b'"
proof -
  from connected_board_arranged[OF assms(1,2)] obtain b where
    b: "connected_board w h = Inr b" "arranged w h (edges b) b"
    "\<forall>p d. inside w h p \<longrightarrow> connection (edges b ! slot w h p d) = seam_target w h p d"
    by blast
  from shuffle_arranged[OF assms(1,2) b(3) b(2) assms(3,4)] b(1) show ?thesis by blast
qed

theorem shuffle_asserts_hold_witness:
  "(1 :: int) < 3 \<and> (1 :: int) < 5 \<and> is_shuffle rev \<and> is_shuffle rev
   \<and> (\<exists>b b'. connected_board 3 5 = Inr b \<and> shuffle rev rev (\<lambda>k. R90) b = Inr b')"
proof -
  have a: "(1 :: int) < 3" and b: "(1 :: int) < 5" by simp_all
  from shuffle_asserts_hold[OF a b is_shuffle_rev is_shuffle_rev, of "\<lambda>k. R90"] is_shuffle_rev
  show ?thesis by simp
qed

subsection \<open>Group collapse: the parity test\<close>

lemma set_set_add [simp]: "set (set_add xs x) = insert x (set xs)"
  by (auto simp: set_add_def)

lemma set_set_union [simp]: "set (set_union xs ys) = set xs \<union> set ys"
  unfolding set_union_def by (induction ys arbitrary: xs) auto

lemma set_set_inter [simp]: "set (set_inter xs ys) = set xs \<inter> set ys"
  by (auto simp: set_inter_def)

lemma layer_members_Nil [simp]: "layer_members P [] = {}"
  by (simp add: layer_members_def)







text \<open>
  The parity test of \<^verbatim>\<open>collapse_edges\<close> never fires (lemma
  \<open>collapse_edges_never_fails\<close>: a group enters \<^verbatim>\<open>layers\<close> once, guarded by
  \<^verbatim>\<open>seen\<close>, so the even and odd sets are disjoint by construction).  On
  \<open>odd_cycle_board\<close>, a board with merge sets entered by hand that no run of
  \<^verbatim>\<open>merge_edges\<close> produces, the groups \<open>{0, 14}\<close>, \<open>{6, 1}\<close> and \<open>{9, 5}\<close> are
  pairwise adjacent; the call returns success.
\<close>

lemma collapse_edges_hand_built_odd_cycle:
  "(case collapse_edges odd_cycle_board of
      Inl e \<Rightarrow> False
    | Inr r \<Rightarrow>
        fst r = True
        \<and> group_walk (edges odd_cycle_board) [0] [] = [0, 14]
        \<and> group_walk (edges odd_cycle_board) [6] [] = [6, 1]
        \<and> group_walk (edges odd_cycle_board) [9] [] = [9, 5]
        \<and> map (\<lambda>e. connection (edges odd_cycle_board ! e)) [0, 1, 5] = [Some 6, Some 9, Some 14]
        \<and> connection (edges (snd r) ! 0) = Some 6
        \<and> shape (edges (snd r) ! 0) = Knob
        \<and> shape (edges (snd r) ! 6) = Knob)"
  by code_simp

subsection \<open>Generation loop\<close>




subsection \<open>Group collapse raises nothing\<close>


paragraph \<open>Step 1: every connected edge gets a group\<close>


declare group_walk.simps [simp del]



paragraph \<open>Step 2: every group a connection leads to is a key\<close>





paragraph \<open>Step 3: the walks find every group they look up\<close>

declare layer_walk.simps [simp del]




paragraph \<open>Step 4: the final assignment finds every group\<close>




subsection \<open>Group collapse on the boards of the generation loop\<close>








lemma add_merge_length [simp]: "length (add_merge es i x) = length es"
  by (simp add: add_merge_def)

lemma add_merge_connection [simp]: "connection (add_merge es i x ! e) = connection (es ! e)"
  by (cases "e = i") (simp_all add: add_merge_def)


lemma add_pair_length [simp]: "length (add_pair ft es) = length es"
  by (simp add: add_pair_def)

lemma add_pair_connection [simp]: "connection (add_pair ft es ! e) = connection (es ! e)"
  by (simp add: add_pair_def)


lemma fold_add_pair_length [simp]: "length (fold add_pair prs es) = length es"
  by (induction prs arbitrary: es) simp_all

lemma fold_add_pair_connection [simp]:
  "connection (fold add_pair prs es ! e) = connection (es ! e)"
  by (induction prs arbitrary: es) simp_all
















subsection \<open>The generation loop against its specification\<close>











end
